theory Spec2Isabelle
  imports Complex_Main "HOL-Library.Multiset" "HOL-Library.Product_Lexorder"
begin

section \<open>Values of the result arrays\<close>

text \<open>
  The notebooks handle NumPy arrays of 64-bit floats.  An entry is a not-a-number, one of
  the two infinities, or a finite number; the finite numbers that an array can hold are
  the binary64 values.  The two zeros are one value here.  Every arithmetic result is
  rounded to the nearest binary64 value, ties to the even mantissa, and becomes an
  infinity when it is too large.  The comparisons, the masking and the NaN handling
  follow NumPy.
\<close>

datatype npfloat = NaN | NInf | PInf | Fin real

fun isnan :: "npfloat \<Rightarrow> bool" where
  "isnan NaN = True"
| "isnan _ = False"

fun isfinite :: "npfloat \<Rightarrow> bool" where
  "isfinite (Fin x) = True"
| "isfinite _ = False"

fun fneg :: "npfloat \<Rightarrow> npfloat" where
  "fneg NaN = NaN"
| "fneg NInf = PInf"
| "fneg PInf = NInf"
| "fneg (Fin x) = Fin (- x)"

text \<open>A number that is not negative, or the positive infinity.\<close>

fun nonneg :: "npfloat \<Rightarrow> bool" where
  "nonneg (Fin x) = (0 \<le> x)"
| "nonneg PInf = True"
| "nonneg _ = False"

subsection \<open>Rounding to binary64\<close>

text \<open>Rounding a real number to the nearest integer, a tie to the even one.\<close>

definition round_half_even :: "real \<Rightarrow> int" where
  "round_half_even y =
     (let f = \<lfloor>y\<rfloor>; r = y - of_int f
      in if r < 1 / 2 then f else if 1 / 2 < r then f + 1 else if even f then f else f + 1)"

text \<open>
  The binary64 values are the integers of magnitude below \<open>2^53\<close> times a power of two
  between \<open>2^-1074\<close> and \<open>2^971\<close>.  For a number \<open>x\<close> that is not negative, take
  \<open>s = x * 2^1074\<close>: the binary64 values next to \<open>x\<close> are \<open>2^q * 2^-1074\<close> apart, where
  \<open>q\<close> is the least number with \<open>s < 2^(q+53)\<close> (zero for the subnormal numbers), and
  \<open>2045\<close> at most.  The search below looks for \<open>q\<close> upwards, in at most \<open>n\<close> steps.
\<close>

fun ulp_search :: "nat \<Rightarrow> nat \<Rightarrow> real \<Rightarrow> nat" where
  "ulp_search 0 q s = q"
| "ulp_search (Suc n) q s = (if s < 2 ^ (q + 53) then q else ulp_search n (Suc q) s)"

definition subnormal_scale :: real where
  "subnormal_scale = 2 ^ 1074"

definition ulp_exp :: "real \<Rightarrow> nat" where
  "ulp_exp x = ulp_search 2045 0 (x * subnormal_scale)"

definition mantissa :: "real \<Rightarrow> int" where
  "mantissa x = round_half_even (x * subnormal_scale / 2 ^ ulp_exp x)"

text \<open>
  Rounding a number that is not negative: the mantissa at the spacing of the number; a
  mantissa of \<open>2^53\<close> at the largest spacing is past the largest value and gives the
  infinity.
\<close>

definition round_pos :: "real \<Rightarrow> npfloat" where
  "round_pos x =
     (if ulp_exp x = 2045 \<and> 2 ^ 53 \<le> mantissa x then PInf
      else Fin (of_int (mantissa x) * 2 ^ ulp_exp x / subnormal_scale))"

definition round64 :: "real \<Rightarrow> npfloat" where
  "round64 x = (if x < 0 then fneg (round_pos (- x)) else round_pos x)"

text \<open>The real numbers that are binary64 values: rounding leaves them as they are.\<close>

definition is_float64 :: "real \<Rightarrow> bool" where
  "is_float64 x = (round64 x = Fin x)"

subsection \<open>Arithmetic and comparisons\<close>

text \<open>
  The sum of two entries: the rounded sum of two numbers; the infinities absorb the
  numbers, and two opposite infinities give NaN.
\<close>

fun fadd :: "npfloat \<Rightarrow> npfloat \<Rightarrow> npfloat" where
  "fadd NaN b = NaN"
| "fadd a NaN = NaN"
| "fadd PInf NInf = NaN"
| "fadd NInf PInf = NaN"
| "fadd PInf b = PInf"
| "fadd a PInf = PInf"
| "fadd NInf b = NInf"
| "fadd a NInf = NInf"
| "fadd (Fin x) (Fin y) = round64 (x + y)"

definition fsub :: "npfloat \<Rightarrow> npfloat \<Rightarrow> npfloat" where
  "fsub a b = fadd a (fneg b)"

text \<open>The comparisons \<^verbatim>\<open><\<close> and \<^verbatim>\<open><=\<close>: false as soon as one side is NaN.\<close>

fun flt :: "npfloat \<Rightarrow> npfloat \<Rightarrow> bool" where
  "flt NaN b = False"
| "flt a NaN = False"
| "flt a NInf = False"
| "flt NInf b = True"
| "flt PInf b = False"
| "flt a PInf = True"
| "flt (Fin x) (Fin y) = (x < y)"

fun fle :: "npfloat \<Rightarrow> npfloat \<Rightarrow> bool" where
  "fle NaN b = False"
| "fle a NaN = False"
| "fle NInf b = True"
| "fle a PInf = True"
| "fle a NInf = False"
| "fle PInf b = False"
| "fle (Fin x) (Fin y) = (x \<le> y)"

datatype py_error = IndexError | KeyError | ZeroDivisionError | OverflowError

text \<open>
  The division \<^verbatim>\<open>/\<close> of two Python integers that are not negative: the quotient rounded
  to a float; a zero divisor raises, and so does a quotient too large for a float.
\<close>

definition truediv :: "nat \<Rightarrow> nat \<Rightarrow> py_error + npfloat" where
  "truediv a b =
     (if b = 0 then Inl ZeroDivisionError
      else (case round64 (real a / real b) of
              PInf \<Rightarrow> Inl OverflowError
            | res \<Rightarrow> Inr res))"

section \<open>The \<open>\<Delta>BIC\<close> cell of the DC14 check\<close>

text \<open>
  \<^verbatim>\<open>interv_tab=np.asarray([[-np.inf,-6],[-6,-2],[-2,2],[2,6],[6,np.inf]])\<close>
\<close>

definition interv_tab :: "(npfloat \<times> npfloat) list" where
  "interv_tab = [(NInf, Fin (- 6)), (Fin (- 6), Fin (- 2)), (Fin (- 2), Fin 2),
                 (Fin 2, Fin 6), (Fin 6, PInf)]"

text \<open>
  \<^verbatim>\<open>diffin=BIC['NFW'][j]-BIC['DC14'][j]\<close>, for an index \<open>j\<close> inside both arrays.
\<close>

definition diffin :: "npfloat list \<Rightarrow> npfloat list \<Rightarrow> nat \<Rightarrow> npfloat" where
  "diffin nfw dc14 j = fsub (nfw ! j) (dc14 ! j)"

text \<open>
  \<^verbatim>\<open>np.ma.masked_invalid\<close> masks a NaN and an infinity; a comparison with a masked
  scalar is masked, and its truth value is false.
\<close>

datatype masked = Masked | Unmasked real

fun masked_invalid :: "npfloat \<Rightarrow> masked" where
  "masked_invalid (Fin x) = Unmasked x"
| "masked_invalid _ = Masked"

text \<open>\<^verbatim>\<open>interv_tab[i,0]<(diffin)<=interv_tab[i,1]\<close>\<close>

fun in_interval :: "npfloat \<times> npfloat \<Rightarrow> masked \<Rightarrow> bool" where
  "in_interval (lo, hi) Masked = False"
| "in_interval (lo, hi) (Unmasked x) = (flt lo (Fin x) \<and> fle (Fin x) hi)"

text \<open>
  The inner loop \<^verbatim>\<open>for j in range(len(BIC['NFW']))\<close>, over the indices still to visit,
  with the counter \<open>sum_0\<close>.  Reading \<^verbatim>\<open>BIC['DC14'][j]\<close> past the end raises.
\<close>

fun count_loop ::
  "npfloat \<times> npfloat \<Rightarrow> npfloat list \<Rightarrow> npfloat list \<Rightarrow> nat list \<Rightarrow> nat \<Rightarrow> py_error + nat"
where
  "count_loop iv nfw dc14 [] sum_0 = Inr sum_0"
| "count_loop iv nfw dc14 (j # js) sum_0 =
     (if length dc14 \<le> j then Inl IndexError
      else if in_interval iv (masked_invalid (diffin nfw dc14 j))
           then count_loop iv nfw dc14 js (sum_0 + 1)
           else count_loop iv nfw dc14 js sum_0)"

text \<open>
  The outer loop over the rows of \<open>interv_tab\<close>; each turn prints
  \<^verbatim>\<open>sum_0/len(BIC['NFW'])\<close>, a division of two Python integers.  The result is the list
  of the printed fractions.
\<close>

fun interval_loop ::
  "(npfloat \<times> npfloat) list \<Rightarrow> npfloat list \<Rightarrow> npfloat list \<Rightarrow> py_error + npfloat list"
where
  "interval_loop [] nfw dc14 = Inr []"
| "interval_loop (iv # ivs) nfw dc14 =
     (case count_loop iv nfw dc14 [0..<length nfw] 0 of
        Inl e \<Rightarrow> Inl e
      | Inr sum_0 \<Rightarrow>
          (case truediv sum_0 (length nfw) of
             Inl e \<Rightarrow> Inl e
           | Inr fraction \<Rightarrow>
               (case interval_loop ivs nfw dc14 of
                  Inl e \<Rightarrow> Inl e
                | Inr rest \<Rightarrow> Inr (fraction # rest))))"

definition dBIC_fractions :: "npfloat list \<Rightarrow> npfloat list \<Rightarrow> py_error + npfloat list" where
  "dBIC_fractions nfw dc14 = interval_loop interv_tab nfw dc14"

text \<open>
  What the inner loop counts for one interval, written without the loop: the indices of
  the NFW array whose difference passes the membership test.
\<close>

definition bin_count :: "npfloat \<times> npfloat \<Rightarrow> npfloat list \<Rightarrow> npfloat list \<Rightarrow> nat" where
  "bin_count iv nfw dc14 =
     length (filter (\<lambda>j. in_interval iv (masked_invalid (diffin nfw dc14 j))) [0..<length nfw])"

section \<open>Result tables and their two subsets\<close>

text \<open>
  What \<^verbatim>\<open>fit()\<close> returns is read by the notebooks as a dictionary of dictionaries of
  arrays: \<^verbatim>\<open>CDM_params_dict[key]['Vbulge_none']['BIC']\<close>.  A missing key raises.
\<close>

type_synonym result_table = "string \<rightharpoonup> (string \<rightharpoonup> npfloat list)"

definition subset_stat :: "result_table \<Rightarrow> string \<Rightarrow> string \<Rightarrow> py_error + npfloat list" where
  "subset_stat tbl sub stat =
     (case tbl sub of
        None \<Rightarrow> Inl KeyError
      | Some entries \<Rightarrow> (case entries stat of None \<Rightarrow> Inl KeyError | Some arr \<Rightarrow> Inr arr))"

text \<open>
  \<^verbatim>\<open>np.concatenate((tbl['Vbulge_none'][stat], tbl['Vbulge'][stat]))\<close>: the left
  operand is read first.
\<close>

definition concat_subsets :: "result_table \<Rightarrow> string \<Rightarrow> py_error + npfloat list" where
  "concat_subsets tbl stat =
     (case subset_stat tbl ''Vbulge_none'' stat of
        Inl e \<Rightarrow> Inl e
      | Inr a \<Rightarrow> (case subset_stat tbl ''Vbulge'' stat of
                   Inl e \<Rightarrow> Inl e
                 | Inr b \<Rightarrow> Inr (a @ b)))"


section \<open>Medians and means that skip NaN\<close>

text \<open>
  \<^verbatim>\<open>np.sum\<close> adds the entries of a float array in NumPy's pairwise order.  Fewer than
  eight entries are added from left to right.  Up to 128 entries are added in eight
  running sums \<open>r[0]\<close> to \<open>r[7]\<close>, the sum \<open>r[k]\<close> taking the entries \<open>k\<close>, \<open>8 + k\<close>,
  \<open>16 + k\<close> and so on; the eight are added in pairs,
  \<open>((r[0] + r[1]) + (r[2] + r[3])) + ((r[4] + r[5]) + (r[6] + r[7]))\<close>, and the entries
  past the last full group of eight are added to the result one by one.  A longer array
  is cut at half its length, lowered to a multiple of eight, and the sums of the two
  parts are added.
\<close>

definition lane :: "npfloat list \<Rightarrow> nat \<Rightarrow> npfloat" where
  "lane a k = foldl fadd (a ! k) (map (\<lambda>g. a ! (8 * g + k)) [1..<length a div 8])"

definition block_sum :: "npfloat list \<Rightarrow> npfloat" where
  "block_sum a =
     (let r = map (lane a) [0..<8];
          res = fadd (fadd (fadd (r ! 0) (r ! 1)) (fadd (r ! 2) (r ! 3)))
                     (fadd (fadd (r ! 4) (r ! 5)) (fadd (r ! 6) (r ! 7)))
      in foldl fadd res (drop (length a - length a mod 8) a))"

function pairwise_sum :: "npfloat list \<Rightarrow> npfloat" where
  "pairwise_sum a =
     (if length a < 8 then foldl fadd (Fin 0) a
      else if length a \<le> 128 then block_sum a
      else (let n2 = length a div 2 - (length a div 2) mod 8
            in fadd (pairwise_sum (take n2 a)) (pairwise_sum (drop n2 a))))"
  by pat_completeness auto
termination
  by (relation "measure length") auto

declare pairwise_sum.simps [simp del]

text \<open>The reduction starts from the identity of the addition and adds the pairwise sum.\<close>

definition np_sum :: "npfloat list \<Rightarrow> npfloat" where
  "np_sum arr = fadd (Fin 0) (pairwise_sum arr)"

text \<open>A sum divided by an integer count: the rounded quotient; \<open>0/0\<close> is NaN.\<close>

fun fdiv_count :: "npfloat \<Rightarrow> nat \<Rightarrow> npfloat" where
  "fdiv_count NaN n = NaN"
| "fdiv_count PInf n = PInf"
| "fdiv_count NInf n = NInf"
| "fdiv_count (Fin x) n =
     (if n = 0 then (if x = 0 then NaN else if 0 < x then PInf else NInf)
      else round64 (x / real n))"

definition np_mean :: "npfloat list \<Rightarrow> npfloat" where
  "np_mean arr = fdiv_count (np_sum arr) (length arr)"

text \<open>The order in which NumPy sorts: the numbers between the infinities, NaN last.\<close>

fun sort_rank :: "npfloat \<Rightarrow> nat \<times> real" where
  "sort_rank NInf = (0, 0)"
| "sort_rank (Fin x) = (1, x)"
| "sort_rank PInf = (2, 0)"
| "sort_rank NaN = (3, 0)"

text \<open>
  \<^verbatim>\<open>np.median\<close>: the mean of the middle element, or of the two middle elements, of the
  sorted array; NaN as soon as the array holds a NaN.
\<close>

definition np_median :: "npfloat list \<Rightarrow> npfloat" where
  "np_median arr =
     (let part = sort_key sort_rank arr; sz = length arr; index = sz div 2
      in if list_ex isnan arr then NaN
         else if sz mod 2 = 1 then np_mean (take 1 (drop index part))
         else np_mean (take 2 (drop (index - 1) part)))"

text \<open>
  \<^verbatim>\<open>np.nanmedian\<close> removes the NaN entries and takes the median of the rest (NaN when
  nothing is left).  \<^verbatim>\<open>np.nanmean\<close> replaces each NaN by zero, sums, and divides by the
  number of entries that are not NaN.
\<close>

definition nanmedian :: "npfloat list \<Rightarrow> npfloat" where
  "nanmedian arr =
     (let arr1d_parsed = filter (\<lambda>x. \<not> isnan x) arr
      in if arr1d_parsed = [] then NaN else np_median arr1d_parsed)"

definition nanmean :: "npfloat list \<Rightarrow> npfloat" where
  "nanmean arr =
     (let cnt = length (filter (\<lambda>x. \<not> isnan x) arr);
          tot = np_sum (map (\<lambda>x. if isnan x then Fin 0 else x) arr)
      in fdiv_count tot cnt)"

text \<open>
  The cell of the Einasto check: for each key of \<^verbatim>\<open>CDM_params_dict\<close>, in order, the
  median and the mean of the concatenated \<^verbatim>\<open>'Chi_sq'\<close> arrays are printed.
\<close>

fun checks_Einasto_NFW_chisq ::
  "(string \<times> result_table) list \<Rightarrow> py_error + (string \<times> npfloat \<times> npfloat) list"
where
  "checks_Einasto_NFW_chisq [] = Inr []"
| "checks_Einasto_NFW_chisq ((key, tbl) # items) =
     (case concat_subsets tbl ''Chi_sq'' of
        Inl e \<Rightarrow> Inl e
      | Inr chisq \<Rightarrow>
          (case checks_Einasto_NFW_chisq items of
             Inl e \<Rightarrow> Inl e
           | Inr printed \<Rightarrow> Inr ((key, nanmedian chisq, nanmean chisq) # printed)))"

text \<open>The cell of the DC14 check that prints the median of \<^verbatim>\<open>redchi\<close> for each key.\<close>

fun checks_DC14_NFW_redchi ::
  "(string \<times> result_table) list \<Rightarrow> py_error + (string \<times> npfloat) list"
where
  "checks_DC14_NFW_redchi [] = Inr []"
| "checks_DC14_NFW_redchi ((key, tbl) # items) =
     (case concat_subsets tbl ''Chi_sq'' of
        Inl e \<Rightarrow> Inl e
      | Inr redchi \<Rightarrow>
          (case checks_DC14_NFW_redchi items of
             Inl e \<Rightarrow> Inl e
           | Inr printed \<Rightarrow> Inr ((key, nanmedian redchi) # printed)))"

section \<open>The fitter and the aggregator, as the specification describes them\<close>

text \<open>
  Modelled from the spec: the module \<^verbatim>\<open>pyfiles.fitting.results\<close>, which fits one galaxy
  and derives its statistics, is not among the sources.  The specification gives
  \<open>BIC = \<chi>\<^sup>2 + k \<sqdot> ln N\<close> for \<open>k\<close> free parameters and \<open>N\<close> data points.
\<close>

definition BIC :: "real \<Rightarrow> nat \<Rightarrow> nat \<Rightarrow> real" where
  "BIC chi_sq k N = chi_sq + real k * ln (real N)"

text \<open>
  Modelled from the spec: the degrees of freedom of a fit, computed in the missing
  fitting module, are the number of data points minus the number of free parameters.
\<close>

definition dof :: "nat \<Rightarrow> nat \<Rightarrow> int" where
  "dof N k = int N - int k"

text \<open>
  Modelled from the spec: the reduced \<open>\<chi>\<^sup>2\<close>, computed in the missing fitting module, is
  \<open>\<chi>\<^sup>2\<close> over the degrees of freedom, and NaN when these are not positive.
\<close>

definition reduced_chi_sq :: "real \<Rightarrow> nat \<Rightarrow> nat \<Rightarrow> npfloat" where
  "reduced_chi_sq chi_sq k N =
     (if dof N k \<le> 0 then NaN else Fin (chi_sq / real_of_int (dof N k)))"

text \<open>
  Modelled from the spec: the fit result of the missing fitting module holds \<open>\<chi>\<^sup>2\<close>, the
  degrees of freedom, the reduced \<open>\<chi>\<^sup>2\<close>, the BIC and a convergence flag.
\<close>

record FitResult =
  Chi_sq :: npfloat
  degrees_of_freedom :: int
  reduced_Chi_sq :: npfloat
  BIC_value :: npfloat
  converged :: bool

text \<open>
  Modelled from the spec: the optimizer of the missing fitting module either finds a
  minimum of \<open>\<chi>\<^sup>2\<close> or does not converge (iteration limit, degenerate Jacobian).
\<close>

datatype optimizer_outcome = Minimum real | NotConverged

text \<open>
  Modelled from the spec: how the missing fitting module derives a fit result.  When the
  optimizer does not converge, the flag is off and the derived statistics are NaN;
  nothing is raised.  With no data point the logarithm has no value, and neither has the
  BIC.
\<close>

fun fit_result :: "nat \<Rightarrow> nat \<Rightarrow> optimizer_outcome \<Rightarrow> FitResult" where
  "fit_result k N (Minimum chi_sq) =
     \<lparr>Chi_sq = Fin chi_sq, degrees_of_freedom = dof N k,
      reduced_Chi_sq = reduced_chi_sq chi_sq k N,
      BIC_value = (if N = 0 then NaN else Fin (BIC chi_sq k N)),
      converged = True\<rparr>"
| "fit_result k N NotConverged =
     \<lparr>Chi_sq = NaN, degrees_of_freedom = dof N k, reduced_Chi_sq = NaN,
      BIC_value = NaN, converged = False\<rparr>"

text \<open>
  Modelled from the spec: the per-galaxy fitter of the missing fitting module takes a
  model with \<open>k\<close> free parameters and a galaxy with its data points, and turns what the
  optimizer found into a fit result.
\<close>

definition per_galaxy_fitter ::
  "nat \<Rightarrow> ('g \<Rightarrow> nat) \<Rightarrow> ('g \<Rightarrow> optimizer_outcome) \<Rightarrow> 'g \<Rightarrow> FitResult"
where
  "per_galaxy_fitter k n_points optimize galaxy =
     fit_result k (n_points galaxy) (optimize galaxy)"

text \<open>
  Modelled from the spec: the batch orchestrator inside the missing \<^verbatim>\<open>fit()\<close> fits the
  galaxies one after the other, each on its own; a failed fit is an entry like the
  others, and the next galaxy follows.
\<close>

definition batch_fit :: "('g \<Rightarrow> FitResult) \<Rightarrow> 'g list \<Rightarrow> FitResult list" where
  "batch_fit fitter galaxies = map fitter galaxies"

text \<open>
  Modelled from the spec: the summed \<open>\<chi>\<^sup>2\<close>, computed by plotting routines that are not
  among the sources, is the sum over all valid (not NaN) galaxies.
\<close>

definition sum_valid :: "npfloat list \<Rightarrow> npfloat" where
  "sum_valid arr = np_sum (filter (\<lambda>x. \<not> isnan x) arr)"

text \<open>
  Modelled from the spec: the summed \<open>\<chi>\<^sup>2\<close> of a table (the missing plotting routines
  compute it); the galaxies are those of the two concatenated subsets, as in the cells
  above.
\<close>

definition summed_chi_sq :: "result_table \<Rightarrow> py_error + npfloat" where
  "summed_chi_sq tbl =
     (case concat_subsets tbl ''Chi_sq'' of
        Inl e \<Rightarrow> Inl e
      | Inr chisq \<Rightarrow> Inr (sum_valid chisq))"


section \<open>Columns of whole units\<close>

text \<open>
  A column given in units of \<open>2^-e\<close>: an entry is a whole number of units, or NaN for a
  failed fit; and the number of units of a column, a NaN counting for none.
\<close>

definition unit_entry :: "nat \<Rightarrow> nat option \<Rightarrow> npfloat" where
  "unit_entry e entry = (case entry of None \<Rightarrow> NaN | Some u \<Rightarrow> Fin (real u / 2 ^ e))"

definition unit_total :: "nat option list \<Rightarrow> nat" where
  "unit_total entries = sum_list (map (\<lambda>entry. case entry of None \<Rightarrow> 0 | Some u \<Rightarrow> u) entries)"

section \<open>A small table\<close>


section \<open>Properties of the rounding\<close>

lemma ulp_search_lower: "q \<le> ulp_search n q s"
proof (induction n arbitrary: q)
  case 0
  then show ?case by simp
next
  case (Suc n)
  show ?case
    using Suc.IH [of "Suc q"] by simp
qed

lemma ulp_search_upper: "ulp_search n q s \<le> q + n"
proof (induction n arbitrary: q)
  case 0
  then show ?case by simp
next
  case (Suc n)
  show ?case
    using Suc.IH [of "Suc q"] by simp
qed

lemma ulp_search_stop: "s < 2 ^ (q + 53) \<Longrightarrow> ulp_search n q s = q"
  by (cases n) simp_all

lemma ulp_search_min: "q \<le> e \<Longrightarrow> s < 2 ^ (e + 53) \<Longrightarrow> ulp_search n q s \<le> e"
proof (induction n arbitrary: q)
  case 0
  then show ?case by simp
next
  case (Suc n)
  show ?case
  proof (cases "s < 2 ^ (q + 53)")
    case True
    then show ?thesis using Suc.prems by simp
  next
    case False
    with Suc.prems have "q \<noteq> e" by auto
    with Suc.prems have "Suc q \<le> e" by simp
    from Suc.IH [OF this Suc.prems(2)] False show ?thesis by simp
  qed
qed


lemma ulp_search_test: "ulp_search n q s < q + n \<Longrightarrow> s < 2 ^ (ulp_search n q s + 53)"
proof (induction n arbitrary: q)
  case 0
  then show ?case by simp
next
  case (Suc n)
  show ?case
  proof (cases "s < 2 ^ (q + 53)")
    case True
    then show ?thesis by simp
  next
    case False
    with Suc.prems have "ulp_search n (Suc q) s < Suc q + n" by simp
    from Suc.IH [OF this] False show ?thesis by simp
  qed
qed

lemma ulp_search_eq:
  assumes "2 ^ (q + 52) \<le> s" and "s < 2 ^ (q + 53)" and "q < n"
  shows "ulp_search n 0 s = q"
proof -
  let ?r = "ulp_search n 0 s"
  have le: "?r \<le> q"
    using assms(2) by (intro ulp_search_min) simp_all
  then have "?r < 0 + n"
    using assms(3) by simp
  then have "s < 2 ^ (?r + 53)"
    by (rule ulp_search_test)
  with assms(1) have "(2::real) ^ (q + 52) < 2 ^ (?r + 53)"
    by linarith
  then have "q + 52 < ?r + 53"
    by (simp add: power_strict_increasing_iff)
  with le show ?thesis by simp
qed

lemma round_half_even_of_int: "round_half_even (of_int k) = k"
  by (simp add: round_half_even_def)

lemma round_half_even_mono_floor: "\<lfloor>y\<rfloor> \<le> round_half_even y"
  by (simp add: round_half_even_def Let_def)

lemma round_half_even_nonneg: "0 \<le> y \<Longrightarrow> 0 \<le> round_half_even y"
  using round_half_even_mono_floor [of y] by (smt (verit) zero_le_floor)


lemma round_half_even_error: "\<bar>of_int (round_half_even y) - y\<bar> \<le> 1 / 2"
proof -
  have "of_int \<lfloor>y\<rfloor> \<le> y" "y < of_int \<lfloor>y\<rfloor> + 1"
    by linarith+
  then show ?thesis
    by (auto simp: round_half_even_def Let_def)
qed


lemma ulp_search_exhaust: "2 ^ (q + n + 52) \<le> s \<Longrightarrow> ulp_search n q s = q + n"
proof (induction n arbitrary: q)
  case 0
  then show ?case by simp
next
  case (Suc n)
  have "(2::real) ^ (q + 53) \<le> 2 ^ (q + Suc n + 52)"
    by (intro power_increasing) simp_all
  with Suc.prems have "\<not> s < 2 ^ (q + 53)"
    by linarith
  moreover have "ulp_search n (Suc q) s = Suc q + n"
    using Suc.prems by (intro Suc.IH) simp
  ultimately show ?case by simp
qed

lemma divide_eqI: "s = a * c \<Longrightarrow> c \<noteq> 0 \<Longrightarrow> s / c = (a::real)"
  by simp

lemma subnormal_scale_pos: "0 < subnormal_scale"
  by (simp add: subnormal_scale_def)

lemma ulp_exp_le: "x * subnormal_scale < 2 ^ (e + 53) \<Longrightarrow> ulp_exp x \<le> e"
  unfolding ulp_exp_def by (intro ulp_search_min) simp_all

lemma ulp_exp_eq:
  "2 ^ (q + 52) \<le> x * subnormal_scale \<Longrightarrow> x * subnormal_scale < 2 ^ (q + 53) \<Longrightarrow> q < 2045 \<Longrightarrow>
   ulp_exp x = q"
  unfolding ulp_exp_def by (rule ulp_search_eq)

lemma ulp_exp_max: "2 ^ 2097 \<le> x * subnormal_scale \<Longrightarrow> ulp_exp x = 2045"
  unfolding ulp_exp_def using ulp_search_exhaust [of 0 2045 "x * subnormal_scale"] by simp


lemma scaled_nonneg: "0 \<le> x \<Longrightarrow> 0 \<le> x * subnormal_scale / 2 ^ ulp_exp x"
  using subnormal_scale_pos by simp

lemma mantissa_nonneg: "0 \<le> x \<Longrightarrow> 0 \<le> mantissa x"
  unfolding mantissa_def by (intro round_half_even_nonneg scaled_nonneg)


lemma mantissa_error:
  "\<bar>of_int (mantissa x) - x * subnormal_scale / 2 ^ ulp_exp x\<bar> \<le> 1 / 2"
  unfolding mantissa_def by (rule round_half_even_error)

lemma round_pos_nonneg: "0 \<le> x \<Longrightarrow> nonneg (round_pos x)"
  using mantissa_nonneg [of x] subnormal_scale_pos by (simp add: round_pos_def)

lemma round_pos_exact:
  assumes "0 \<le> m" and "m < 2 ^ 53" and "e \<le> 2045" and "x * subnormal_scale = of_int m * 2 ^ e"
  shows "round_pos x = Fin x"
proof -
  let ?s = "x * subnormal_scale"
  define q where "q = ulp_exp x"
  have "real_of_int m < 2 ^ 53"
    using assms(2) by (metis of_int_less_numeral_power_cancel_iff)
  then have "real_of_int m * 2 ^ e < 2 ^ 53 * 2 ^ e"
    by (intro mult_strict_right_mono) simp_all
  then have "?s < 2 ^ (e + 53)"
    unfolding assms(4) power_add by (simp only: mult.commute)
  then have qe: "q \<le> e"
    unfolding q_def by (rule ulp_exp_le)
  have "(2::real) ^ e = 2 ^ (e - q) * 2 ^ q"
    using qe by (simp flip: power_add)
  then have "?s = of_int m * 2 ^ (e - q) * 2 ^ q"
    unfolding assms(4) by simp
  then have "?s / 2 ^ q = of_int m * 2 ^ (e - q)"
    by (rule divide_eqI) simp
  then have sq: "?s / 2 ^ q = of_int (m * 2 ^ (e - q))"
    by simp
  have m: "mantissa x = m * 2 ^ (e - q)"
    unfolding mantissa_def q_def [symmetric] sq by (rule round_half_even_of_int)
  have "of_int (m * 2 ^ (e - q)) * (2::real) ^ q = ?s"
    using sq by (simp add: field_simps)
  then have val: "of_int (mantissa x) * 2 ^ q / subnormal_scale = x"
    unfolding m using subnormal_scale_pos by simp
  have no: "\<not> (q = 2045 \<and> 2 ^ 53 \<le> mantissa x)"
  proof
    assume a: "q = 2045 \<and> 2 ^ 53 \<le> mantissa x"
    then have "e - q = 0"
      using qe assms(3) by linarith
    then have "mantissa x = m"
      unfolding m by simp
    with a assms(2) show False
      by linarith
  qed
  show ?thesis
    using no val unfolding round_pos_def q_def by simp
qed



lemma round_pos_below_one:
  assumes "0 \<le> x" and "x < 1"
  shows "\<exists>y. round_pos x = Fin y \<and> 0 \<le> y \<and> \<bar>y - x\<bar> \<le> 1 / 2 ^ 54"
proof -
  let ?s = "x * subnormal_scale"
  define q where "q = ulp_exp x"
  define m where "m = mantissa x"
  define y where "y = (of_int m * 2 ^ q / subnormal_scale :: real)"
  have "?s < 1 * subnormal_scale"
    using assms(2) subnormal_scale_pos by (intro mult_strict_right_mono) simp_all
  also have "\<dots> = (2::real) ^ (1021 + 53)"
    by (simp add: subnormal_scale_def)
  finally have q: "q \<le> 1021"
    unfolding q_def by (rule ulp_exp_le)
  then have "q \<noteq> 2045"
    by linarith
  then have r: "round_pos x = Fin y"
    unfolding round_pos_def y_def q_def [symmetric] m_def [symmetric] by simp
  have nn: "0 \<le> y"
    using round_pos_nonneg [OF assms(1)] unfolding r by simp
  have err: "\<bar>of_int m - ?s / 2 ^ q\<bar> \<le> 1 / 2"
    unfolding m_def q_def by (rule mantissa_error)
  have "y - x = (of_int m - ?s / 2 ^ q) * (2 ^ q / subnormal_scale)"
    unfolding y_def using subnormal_scale_pos by (simp add: field_simps)
  then have "\<bar>y - x\<bar> = \<bar>of_int m - ?s / 2 ^ q\<bar> * (2 ^ q / subnormal_scale)"
    using subnormal_scale_pos by (simp add: abs_mult)
  also have "\<dots> \<le> (1 / 2) * (2 ^ q / subnormal_scale)"
    using subnormal_scale_pos err by (intro mult_right_mono) simp_all
  also have "\<dots> \<le> (1 / 2) * (2 ^ 1021 / subnormal_scale)"
  proof -
    have "(2::real) ^ q \<le> 2 ^ 1021"
      using q by (intro power_increasing) simp_all
    then have "(2::real) ^ q / subnormal_scale \<le> 2 ^ 1021 / subnormal_scale"
      using subnormal_scale_pos by (intro divide_right_mono) simp_all
    then show ?thesis
      by (intro mult_left_mono) simp_all
  qed
  also have "\<dots> = (1::real) / 2 ^ 54"
    by (simp add: subnormal_scale_def)
  finally show ?thesis
    using r nn by blast
qed

lemma round_pos_zero: "round_pos 0 = Fin 0"
  by (rule round_pos_exact [of 0 0]) simp_all

lemma round_pos_one: "round_pos 1 = Fin 1"
  by (rule round_pos_exact [of 1 1074]) (simp_all add: subnormal_scale_def)

lemma round_pos_unit:
  assumes "0 \<le> x" and "x \<le> 1"
  shows "\<exists>y. round_pos x = Fin y \<and> 0 \<le> y \<and> \<bar>y - x\<bar> \<le> 1 / 2 ^ 54"
proof (cases "x = 1")
  case True
  then show ?thesis
    by (simp add: round_pos_one)
next
  case False
  with assms(2) have "x < 1"
    by simp
  with assms(1) show ?thesis
    by (rule round_pos_below_one)
qed

lemma round_pos_eval:
  assumes "2 ^ 52 \<le> x * 2 ^ k" and "x * 2 ^ k < 2 ^ 53" and "k \<le> 1074"
  shows "round_pos x = Fin (of_int (round_half_even (x * 2 ^ k)) / 2 ^ k)"
proof -
  let ?s = "x * subnormal_scale"
  define q where "q = 1074 - k"
  have p: "subnormal_scale = 2 ^ k * 2 ^ q"
    unfolding subnormal_scale_def q_def using assms(3) by (simp flip: power_add)
  have s: "?s = (x * 2 ^ k) * 2 ^ q"
    unfolding p by simp
  have "(2::real) ^ 52 * 2 ^ q \<le> (x * 2 ^ k) * 2 ^ q"
    using assms(1) by (intro mult_right_mono) simp_all
  then have lo: "2 ^ (q + 52) \<le> ?s"
    unfolding s power_add by (simp only: mult.commute)
  have "(x * 2 ^ k) * 2 ^ q < (2::real) ^ 53 * 2 ^ q"
    using assms(2) by (intro mult_strict_right_mono) simp_all
  then have hi: "?s < 2 ^ (q + 53)"
    unfolding s power_add by (simp only: mult.commute)
  have "q < 2045"
    unfolding q_def by linarith
  with lo hi have qq: "ulp_exp x = q"
    by (rule ulp_exp_eq)
  have d: "?s / 2 ^ q = x * 2 ^ k"
    using s by (rule divide_eqI) simp
  have mm: "mantissa x = round_half_even (x * 2 ^ k)"
    unfolding mantissa_def qq d ..
  have v: "of_int m * 2 ^ q / subnormal_scale = (of_int m / 2 ^ k :: real)" for m
    unfolding p by simp
  have "q \<noteq> 2045"
    unfolding q_def by linarith
  then show ?thesis
    unfolding round_pos_def qq v mm by simp
qed

lemma round_pos_overflow:
  assumes "2 ^ 1024 \<le> x"
  shows "round_pos x = PInf"
proof -
  let ?s = "x * subnormal_scale"
  have e1: "(2::real) ^ 1024 * subnormal_scale = 2 ^ 53 * 2 ^ 2045"
    unfolding subnormal_scale_def by (simp flip: power_add)
  have "(2::real) ^ 1024 * subnormal_scale \<le> ?s"
    using assms subnormal_scale_pos by (intro mult_right_mono) simp_all
  then have big: "(2::real) ^ 53 * 2 ^ 2045 \<le> ?s"
    unfolding e1 .
  have "(2::real) ^ 2097 \<le> 2 ^ 53 * 2 ^ 2045"
    by (simp flip: power_add)
  with big have "(2::real) ^ 2097 \<le> ?s"
    by linarith
  then have q: "ulp_exp x = 2045"
    by (rule ulp_exp_max)
  have "(2::real) ^ 53 \<le> ?s / 2 ^ 2045"
    using big by (subst pos_le_divide_eq) simp_all
  then have "2 ^ 53 \<le> \<lfloor>?s / 2 ^ 2045\<rfloor>"
    by (subst le_floor_iff) simp
  then have "2 ^ 53 \<le> mantissa x"
    unfolding mantissa_def q
    using round_half_even_mono_floor [of "?s / 2 ^ 2045"] by linarith
  with q show ?thesis
    by (simp add: round_pos_def)
qed


lemma round64_nonneg_arg: "0 \<le> x \<Longrightarrow> round64 x = round_pos x"
  by (simp add: round64_def)

lemma round64_neg: "round64 (- x) = fneg (round64 x)"
proof -
  consider "x < 0" | "x = 0" | "0 < x"
    by linarith
  then show ?thesis
  proof cases
    case 1
    have "fneg (fneg (round_pos (- x))) = round_pos (- x)"
      by (cases "round_pos (- x)") simp_all
    with 1 show ?thesis
      by (simp add: round64_def)
  next
    case 2
    then show ?thesis
      by (simp add: round64_def round_pos_zero)
  next
    case 3
    then show ?thesis
      by (simp add: round64_def)
  qed
qed

lemma round64_dyadic_nonneg:
  assumes "0 \<le> m" and "m < 2 ^ 53" and "e \<le> 1074"
  shows "round64 (of_int m / 2 ^ e) = Fin (of_int m / 2 ^ e)"
proof -
  let ?x = "real_of_int m / 2 ^ e"
  have p: "subnormal_scale = 2 ^ e * 2 ^ (1074 - e)"
    unfolding subnormal_scale_def using assms(3) by (simp flip: power_add)
  have "?x * subnormal_scale = of_int m * 2 ^ (1074 - e)"
    unfolding p by simp
  then have "round_pos ?x = Fin ?x"
    using assms(1,2) by (intro round_pos_exact [of m "1074 - e"]) simp_all
  moreover have "0 \<le> ?x"
    using assms(1) by simp
  ultimately show ?thesis
    by (simp add: round64_nonneg_arg)
qed

lemma round64_dyadic:
  assumes "\<bar>m\<bar> < 2 ^ 53" and "e \<le> 1074"
  shows "round64 (of_int m / 2 ^ e) = Fin (of_int m / 2 ^ e)"
proof (cases "0 \<le> m")
  case True
  with assms show ?thesis
    by (intro round64_dyadic_nonneg) simp_all
next
  case False
  then have "round64 (of_int (- m) / 2 ^ e) = Fin (of_int (- m) / 2 ^ e)"
    using assms by (intro round64_dyadic_nonneg) simp_all
  then have "round64 (- (of_int m / 2 ^ e)) = Fin (- (of_int m / 2 ^ e))"
    by simp
  then have "fneg (round64 (of_int m / 2 ^ e)) = Fin (- (of_int m / 2 ^ e))"
    unfolding round64_neg .
  then show ?thesis
    by (cases "round64 (of_int m / 2 ^ e)") simp_all
qed

lemma round64_of_int: "\<bar>m\<bar> < 2 ^ 53 \<Longrightarrow> round64 (of_int m) = Fin (of_int m)"
  using round64_dyadic [of m 0] by simp

lemma round64_zero: "round64 0 = Fin 0"
  using round64_of_int [of 0] by simp

lemma round64_one: "round64 1 = Fin 1"
  using round64_of_int [of 1] by simp

lemma round64_numeral:
  "numeral n < (2 ^ 53 :: int) \<Longrightarrow> round64 (numeral n) = Fin (numeral n)"
  using round64_of_int [of "numeral n"] by simp

lemma round64_neg_numeral:
  "numeral n < (2 ^ 53 :: int) \<Longrightarrow> round64 (- numeral n) = Fin (- numeral n)"
  using round64_of_int [of "- numeral n"] by simp

lemma round64_half: "round64 (1 / 2) = Fin (1 / 2)"
  using round64_dyadic [of 1 1] by simp

lemma round64_quarter: "round64 (1 / 4) = Fin (1 / 4)"
  using round64_dyadic [of 1 2] by simp

lemma round64_nonneg: "0 \<le> x \<Longrightarrow> nonneg (round64 x)"
  by (simp add: round64_nonneg_arg round_pos_nonneg)

lemma round64_unit:
  assumes "0 \<le> x" and "x \<le> 1"
  shows "\<exists>y. round64 x = Fin y \<and> 0 \<le> y \<and> \<bar>y - x\<bar> \<le> 1 / 2 ^ 54"
  using round_pos_unit [OF assms] assms(1) by (simp add: round64_nonneg_arg)


lemma round64_overflow: "2 ^ 1024 \<le> x \<Longrightarrow> round64 x = PInf"
proof -
  assume a: "2 ^ 1024 \<le> x"
  have "(0::real) \<le> 2 ^ 1024"
    by simp
  with a have "0 \<le> x"
    by linarith
  then show ?thesis
    using round_pos_overflow [OF a] by (simp add: round64_nonneg_arg)
qed

lemma round64_eval:
  assumes "2 ^ 52 \<le> x * 2 ^ k" and "x * 2 ^ k < 2 ^ 53" and "k \<le> 1074"
  shows "round64 x = Fin (of_int (round_half_even (x * 2 ^ k)) / 2 ^ k)"
proof -
  have "0 < x * 2 ^ k"
    using assms(1) by (rule less_le_trans [rotated]) simp
  then have "0 \<le> x"
    by (simp add: zero_less_mult_iff)
  then show ?thesis
    using round_pos_eval [OF assms] by (simp add: round64_nonneg_arg)
qed

lemma is_float64_dyadic: "\<bar>m\<bar> < 2 ^ 53 \<Longrightarrow> e \<le> 1074 \<Longrightarrow> is_float64 (of_int m / 2 ^ e)"
  unfolding is_float64_def by (rule round64_dyadic)

lemma is_float64_numeral: "numeral n < (2 ^ 53 :: int) \<Longrightarrow> is_float64 (numeral n)"
  unfolding is_float64_def by (rule round64_numeral)

lemma is_float64_zero: "is_float64 0"
  unfolding is_float64_def by (rule round64_zero)







lemma round_half_even_le: "y \<le> of_int k \<Longrightarrow> round_half_even y \<le> k"
proof -
  assume a: "y \<le> of_int k"
  then have f: "\<lfloor>y\<rfloor> \<le> k"
    by (simp add: floor_le_iff)
  show ?thesis
  proof (cases "\<lfloor>y\<rfloor> = k")
    case True
    then have "of_int k \<le> y"
      by (metis of_int_floor_le)
    with a have "y = of_int k"
      by simp
    then show ?thesis
      by (simp add: round_half_even_of_int)
  next
    case False
    with f have "\<lfloor>y\<rfloor> + 1 \<le> k"
      by simp
    moreover have "round_half_even y \<le> \<lfloor>y\<rfloor> + 1"
      by (simp add: round_half_even_def Let_def)
    ultimately show ?thesis
      by linarith
  qed
qed

lemma ulp_exp_upper: "ulp_exp x \<le> 2045"
  unfolding ulp_exp_def using ulp_search_upper [of 2045 0] by simp

lemma mantissa_upper:
  assumes "ulp_exp x < 2045"
  shows "mantissa x \<le> 2 ^ 53"
proof -
  have "ulp_search 2045 0 (x * subnormal_scale) < 0 + 2045"
    using assms by (simp add: ulp_exp_def)
  then have "x * subnormal_scale < 2 ^ (ulp_search 2045 0 (x * subnormal_scale) + 53)"
    by (rule ulp_search_test)
  then have "x * subnormal_scale < 2 ^ 53 * 2 ^ ulp_exp x"
    unfolding ulp_exp_def power_add by (simp only: mult.commute)
  then have "x * subnormal_scale / 2 ^ ulp_exp x < 2 ^ 53"
    by (subst pos_divide_less_eq) simp_all
  then have "x * subnormal_scale / 2 ^ ulp_exp x \<le> of_int (2 ^ 53)"
    by simp
  then show ?thesis
    unfolding mantissa_def by (rule round_half_even_le)
qed

lemma round_pos_is_float64:
  assumes "0 \<le> x" and "round_pos x = Fin y"
  shows "round_pos y = Fin y"
proof -
  let ?m = "mantissa x"
  let ?q = "ulp_exp x"
  from assms(2) have no: "\<not> (?q = 2045 \<and> 2 ^ 53 \<le> ?m)"
    and y: "y = of_int ?m * 2 ^ ?q / subnormal_scale"
    by (simp_all add: round_pos_def split: if_splits)
  have ys: "y * subnormal_scale = of_int ?m * 2 ^ ?q"
    unfolding y using subnormal_scale_pos by simp
  have m0: "0 \<le> ?m"
    using assms(1) by (rule mantissa_nonneg)
  show ?thesis
  proof (cases "?m < 2 ^ 53")
    case True
    with m0 show ?thesis
      using ulp_exp_upper ys by (rule round_pos_exact)
  next
    case False
    with no have q: "?q < 2045"
      using ulp_exp_upper [of x] by linarith
    with False have m: "?m = 2 ^ 53"
      using mantissa_upper [of x] by linarith
    have "y * subnormal_scale = of_int (2 ^ 52) * 2 ^ (?q + 1)"
      unfolding ys m by simp
    moreover have "?q + 1 \<le> 2045"
      using q by simp
    ultimately show ?thesis
      by (intro round_pos_exact [of "2 ^ 52" "?q + 1"]) simp_all
  qed
qed

lemma round_pos_value_nonneg: "0 \<le> x \<Longrightarrow> round_pos x = Fin y \<Longrightarrow> 0 \<le> y"
  using round_pos_nonneg [of x] by simp

lemma round64_is_float64:
  assumes "round64 x = Fin y"
  shows "is_float64 y"
proof (cases "x < 0")
  case True
  then have "fneg (round_pos (- x)) = Fin y"
    using assms by (simp add: round64_def)
  then have r: "round_pos (- x) = Fin (- y)"
    by (cases "round_pos (- x)") simp_all
  have p: "0 \<le> - x"
    using True by simp
  have "round_pos (- y) = Fin (- y)"
    using p r by (rule round_pos_is_float64)
  moreover have "0 \<le> - y"
    using p r by (rule round_pos_value_nonneg)
  ultimately have "round64 (- y) = Fin (- y)"
    by (simp add: round64_nonneg_arg)
  then have "fneg (round64 y) = Fin (- y)"
    unfolding round64_neg .
  then have "round64 y = Fin y"
    by (cases "round64 y") simp_all
  then show ?thesis
    by (simp add: is_float64_def)
next
  case False
  then have r: "round_pos x = Fin y"
    using assms by (simp add: round64_def)
  have p: "0 \<le> x"
    using False by simp
  have "round_pos y = Fin y"
    using p r by (rule round_pos_is_float64)
  moreover have "0 \<le> y"
    using p r by (rule round_pos_value_nonneg)
  ultimately show ?thesis
    by (simp add: is_float64_def round64_nonneg_arg)
qed

lemma fadd_is_float64: "fadd a b = Fin y \<Longrightarrow> is_float64 y"
  by (cases a; cases b) (simp_all add: round64_is_float64)

section \<open>Properties of the sums and differences\<close>

lemma fneg_fneg: "fneg (fneg a) = a"
  by (cases a) simp_all

lemma fneg_fadd: "fneg (fadd a b) = fadd (fneg a) (fneg b)"
proof (cases a; cases b)
  fix x y
  assume "a = Fin x" and "b = Fin y"
  moreover have "- (x + y) = - x + - y"
    by simp
  ultimately show ?thesis
    using round64_neg [of "x + y"] by simp
qed simp_all

lemma fadd_commute: "fadd a b = fadd b a"
  by (cases a; cases b) (simp_all add: add.commute)

lemma nonneg_fadd: "nonneg a \<Longrightarrow> nonneg b \<Longrightarrow> nonneg (fadd a b)"
  by (cases a; cases b) (simp_all add: round64_nonneg)

lemma nonneg_not_nan: "nonneg a \<Longrightarrow> \<not> isnan a"
  by (cases a) simp_all

lemma fsub_numbers: "fsub (Fin a) (Fin b) = round64 (a - b)"
  by (simp add: fsub_def)


section \<open>Properties of the \<open>\<Delta>BIC\<close> cell\<close>

lemma count_loop_in_range:
  "\<forall>j\<in>set js. j < length dc14 \<Longrightarrow>
   count_loop iv nfw dc14 js sum_0 =
     Inr (sum_0 + length (filter (\<lambda>j. in_interval iv (masked_invalid (diffin nfw dc14 j))) js))"
  by (induction js arbitrary: sum_0) simp_all

lemma count_loop_out_of_range:
  "\<exists>j\<in>set js. length dc14 \<le> j \<Longrightarrow> count_loop iv nfw dc14 js sum_0 = Inl IndexError"
  by (induction js arbitrary: sum_0) auto

lemma count_loop_range:
  "count_loop iv nfw dc14 [0..<length nfw] 0 =
     (if length dc14 < length nfw then Inl IndexError else Inr (bin_count iv nfw dc14))"
proof (cases "length dc14 < length nfw")
  case True
  then have "\<exists>j\<in>set [0..<length nfw]. length dc14 \<le> j"
    by (intro bexI [of _ "length dc14"]) simp_all
  then show ?thesis
    using True by (simp add: count_loop_out_of_range)
next
  case False
  then have "\<forall>j\<in>set [0..<length nfw]. j < length dc14"
    by auto
  then show ?thesis
    using False by (simp add: count_loop_in_range bin_count_def)
qed

lemma bin_count_le: "bin_count iv nfw dc14 \<le> length nfw"
  using length_filter_le [of _ "[0..<length nfw]"] by (simp add: bin_count_def)

lemma fraction_rounded:
  assumes "a \<le> b" and "0 < b"
  shows "\<exists>y. round64 (real a / real b) = Fin y \<and> 0 \<le> y \<and> \<bar>y - real a / real b\<bar> \<le> 1 / 2 ^ 54"
proof (rule round64_unit)
  show "0 \<le> real a / real b"
    by simp
  show "real a / real b \<le> 1"
    using assms by simp
qed

lemma truediv_fraction:
  assumes "a \<le> b" and "0 < b"
  shows "truediv a b = Inr (round64 (real a / real b))"
proof -
  obtain y where "round64 (real a / real b) = Fin y"
    using fraction_rounded [OF assms] by blast
  with assms(2) show ?thesis
    by (simp add: truediv_def)
qed

lemma interval_step:
  "interval_loop (iv # ivs) nfw dc14 =
     (if length dc14 < length nfw then Inl IndexError
      else if nfw = [] then Inl ZeroDivisionError
      else (case interval_loop ivs nfw dc14 of
              Inl e \<Rightarrow> Inl e
            | Inr rest \<Rightarrow>
                Inr (round64 (real (bin_count iv nfw dc14) / real (length nfw)) # rest)))"
proof (cases "nfw = []")
  case True
  then show ?thesis
    by (simp add: truediv_def)
next
  case False
  then have "truediv (bin_count iv nfw dc14) (length nfw)
      = Inr (round64 (real (bin_count iv nfw dc14) / real (length nfw)))"
    by (intro truediv_fraction bin_count_le) simp
  with False show ?thesis
    by (simp add: count_loop_range)
qed

lemma interval_loop_char:
  "ivs \<noteq> [] \<Longrightarrow>
   interval_loop ivs nfw dc14 =
     (if length dc14 < length nfw then Inl IndexError
      else if nfw = [] then Inl ZeroDivisionError
      else Inr (map (\<lambda>iv. round64 (real (bin_count iv nfw dc14) / real (length nfw))) ivs))"
proof (induction ivs)
  case Nil
  then show ?case by simp
next
  case (Cons iv ivs)
  show ?case
  proof (cases "ivs = []")
    case True
    then show ?thesis
      unfolding interval_step by simp
  next
    case False
    with Cons.IH show ?thesis
      unfolding interval_step by simp
  qed
qed

lemma dBIC_fractions_char:
  "dBIC_fractions nfw dc14 =
     (if length dc14 < length nfw then Inl IndexError
      else if nfw = [] then Inl ZeroDivisionError
      else Inr (map (\<lambda>iv. round64 (real (bin_count iv nfw dc14) / real (length nfw))) interv_tab))"
  unfolding dBIC_fractions_def
  by (rule interval_loop_char) (simp add: interv_tab_def)

lemma interval_cases:
  fixes x :: real
  obtains "x \<le> - 6" | "- 6 < x" "x \<le> - 2" | "- 2 < x" "x \<le> 2" | "2 < x" "x \<le> 6" | "6 < x"
  by linarith

lemma exactly_one_interval:
  "length (filter (\<lambda>iv. in_interval iv (Unmasked x)) interv_tab) = 1"
  by (cases x rule: interval_cases) (simp_all add: interv_tab_def)

lemma one_interval:
  "(\<Sum>iv\<leftarrow>interv_tab. if in_interval iv (Unmasked x) then 1 else 0) = (1::nat)"
  by (cases x rule: interval_cases) (simp_all add: interv_tab_def)

lemma counts_add_up:
  "\<forall>j\<in>set js. isfinite (diffin nfw dc14 j) \<Longrightarrow>
   (\<Sum>iv\<leftarrow>interv_tab.
      length (filter (\<lambda>j. in_interval iv (masked_invalid (diffin nfw dc14 j))) js)) = length js"
proof (induction js)
  case Nil
  then show ?case by (simp add: interv_tab_def)
next
  case (Cons j js)
  from Cons.prems obtain x where x: "diffin nfw dc14 j = Fin x"
    by (cases "diffin nfw dc14 j") simp_all
  have "(\<Sum>iv\<leftarrow>interv_tab.
      length (filter (\<lambda>j. in_interval iv (masked_invalid (diffin nfw dc14 j))) (j # js)))
    = (\<Sum>iv\<leftarrow>interv_tab. (if in_interval iv (Unmasked x) then 1 else 0) +
      length (filter (\<lambda>j. in_interval iv (masked_invalid (diffin nfw dc14 j))) js))"
    by (intro arg_cong [where f = sum_list] map_cong) (simp_all add: x)
  also have "\<dots> = 1 + length js"
    using Cons by (simp add: sum_list_addf one_interval)
  finally show ?case by simp
qed

lemma bin_counts_total:
  assumes "\<forall>j<length nfw. isfinite (diffin nfw dc14 j)"
  shows "(\<Sum>iv\<leftarrow>interv_tab. bin_count iv nfw dc14) = length nfw"
proof -
  have "\<forall>j\<in>set [0..<length nfw]. isfinite (diffin nfw dc14 j)"
    using assms by simp
  then show ?thesis
    unfolding bin_count_def by (simp add: counts_add_up)
qed

lemma masked_never_counted: "\<not> isfinite d \<Longrightarrow> \<not> in_interval iv (masked_invalid d)"
  by (cases iv; cases d) simp_all

lemma nan_never_counted:
  "isnan (nfw ! j) \<or> isnan (dc14 ! j) \<Longrightarrow>
   \<not> in_interval iv (masked_invalid (diffin nfw dc14 j))"
  by (cases iv; cases "nfw ! j"; cases "dc14 ! j") (simp_all add: diffin_def fsub_def)

lemma five_fractions:
  fixes f c :: "'a \<Rightarrow> real"
  assumes "\<And>i. \<bar>f i - c i / n\<bar> \<le> eps" and "c i1 + c i2 + c i3 + c i4 + c i5 = n" and "n \<noteq> 0"
  shows "\<bar>f i1 + f i2 + f i3 + f i4 + f i5 - 1\<bar> \<le> 5 * eps"
proof -
  have "c i1 / n + c i2 / n + c i3 / n + c i4 / n + c i5 / n
      = (c i1 + c i2 + c i3 + c i4 + c i5) / n"
    by (simp add: add_divide_distrib)
  also have "\<dots> = 1"
    using assms(2,3) by simp
  finally have one: "c i1 / n + c i2 / n + c i3 / n + c i4 / n + c i5 / n = 1" .
  show ?thesis
    using assms(1) [of i1] assms(1) [of i2] assms(1) [of i3] assms(1) [of i4] assms(1) [of i5] one
    by linarith
qed

text \<open>
  Claim C1, amended.  In the DC14-vs-NFW check, over a galaxy set that is not empty and in
  which every difference \<open>\<Delta>BIC\<close> that the cell computes is a finite number, the cell
  prints five fractions, each the float nearest to a count over the number of galaxies;
  the counts add up to the number of galaxies, and the five fractions sum to one within
  five half-spacings \<open>2^-54\<close> of the floats below one.  Every finite \<open>\<Delta>BIC\<close> lies in
  exactly one of the five intervals, the lower bound excluded and the upper bound
  included; a \<open>\<Delta>BIC\<close> that is NaN or infinite is masked and lies in none; an empty
  galaxy set raises a division by zero.
\<close>

theorem dBIC_fractions_sum_to_one:
  assumes "nfw \<noteq> []" and "length nfw \<le> length dc14"
    and "\<forall>j<length nfw. isfinite (diffin nfw dc14 j)"
  shows "(\<exists>fractions. dBIC_fractions nfw dc14 = Inr (map Fin fractions) \<and>
            length fractions = 5 \<and> (\<forall>f\<in>set fractions. is_float64 f \<and> 0 \<le> f) \<and>
            \<bar>sum_list fractions - 1\<bar> \<le> 5 / 2 ^ 54) \<and>
         dBIC_fractions nfw dc14 =
           Inr (map (\<lambda>iv. round64 (real (bin_count iv nfw dc14) / real (length nfw))) interv_tab) \<and>
         (\<Sum>iv\<leftarrow>interv_tab. bin_count iv nfw dc14) = length nfw \<and>
         length (filter (\<lambda>iv. in_interval iv (Unmasked x)) interv_tab) = 1 \<and>
         (\<not> isfinite d \<longrightarrow> \<not> in_interval interval (masked_invalid d)) \<and>
         dBIC_fractions [] dc14' = Inl ZeroDivisionError"
proof -
  let ?n = "real (length nfw)"
  define c where "c iv = real (bin_count iv nfw dc14)" for iv
  define eps :: real where "eps = 1 / 2 ^ 54"
  have pos: "0 < length nfw"
    using assms(1) by simp
  have "\<exists>y. round64 (c iv / ?n) = Fin y \<and> \<bar>y - c iv / ?n\<bar> \<le> eps \<and> 0 \<le> y" for iv
    unfolding c_def eps_def using fraction_rounded [OF bin_count_le pos] by blast
  then obtain f where f: "round64 (c iv / ?n) = Fin (f iv)" "\<bar>f iv - c iv / ?n\<bar> \<le> eps"
      "0 \<le> f iv" for iv
    by metis
  have "is_float64 (f iv)" for iv
    using f(1) by (rule round64_is_float64)
  then have fl: "\<forall>y\<in>set (map f interv_tab). is_float64 y \<and> 0 \<le> y"
    using f(3) by simp
  have char: "dBIC_fractions nfw dc14 = Inr (map (\<lambda>iv. round64 (c iv / ?n)) interv_tab)"
    unfolding c_def using assms(1,2) by (simp add: dBIC_fractions_char)
  then have eq: "dBIC_fractions nfw dc14 = Inr (map Fin (map f interv_tab))"
    by (simp add: f(1) comp_def)
  have total: "(\<Sum>iv\<leftarrow>interv_tab. bin_count iv nfw dc14) = length nfw"
    using assms(3) by (rule bin_counts_total)
  then have "real (\<Sum>iv\<leftarrow>interv_tab. bin_count iv nfw dc14) = ?n"
    by simp
  then have csum: "c (NInf, Fin (- 6)) + c (Fin (- 6), Fin (- 2)) + c (Fin (- 2), Fin 2)
      + c (Fin 2, Fin 6) + c (Fin 6, PInf) = ?n"
    by (simp add: interv_tab_def c_def)
  have five: "\<bar>f (NInf, Fin (- 6)) + f (Fin (- 6), Fin (- 2)) + f (Fin (- 2), Fin 2)
      + f (Fin 2, Fin 6) + f (Fin 6, PInf) - 1\<bar> \<le> 5 * eps"
    using f(2) csum
  proof (rule five_fractions)
    show "?n \<noteq> 0"
      using assms(1) by simp
  qed
  have s: "sum_list (map f interv_tab) = f (NInf, Fin (- 6)) + f (Fin (- 6), Fin (- 2))
      + f (Fin (- 2), Fin 2) + f (Fin 2, Fin 6) + f (Fin 6, PInf)"
    by (simp add: interv_tab_def)
  have e: "5 * eps = 5 / 2 ^ 54"
    by (simp add: eps_def)
  from five have tol: "\<bar>sum_list (map f interv_tab) - 1\<bar> \<le> 5 / 2 ^ 54"
    unfolding s e .
  have len: "length (map f interv_tab) = 5"
    by (simp add: interv_tab_def)
  have empty: "dBIC_fractions [] dc14' = Inl ZeroDivisionError"
    by (simp add: dBIC_fractions_char)
  from eq len fl tol have "\<exists>fractions. dBIC_fractions nfw dc14 = Inr (map Fin fractions) \<and>
      length fractions = 5 \<and> (\<forall>f\<in>set fractions. is_float64 f \<and> 0 \<le> f) \<and>
      \<bar>sum_list fractions - 1\<bar> \<le> 5 / 2 ^ 54"
    by blast
  then show ?thesis
    using char total exactly_one_interval masked_never_counted empty unfolding c_def by blast
qed

text \<open>
  A run of C1: four galaxies with the differences \<open>7\<close>, \<open>2\<close>, \<open>-6\<close> and \<open>-7\<close>; the
  fractions are one half, one quarter and one quarter.
\<close>

theorem dBIC_fractions_sum_to_one_witness:
  "dBIC_fractions [Fin 7, Fin 2, Fin (- 6), Fin (- 7)] [Fin 0, Fin 0, Fin 0, Fin 0]
     = Inr (map Fin [1 / 2, 0, 1 / 4, 0, 1 / 4]) \<and>
   (\<exists>fractions.
      dBIC_fractions [Fin 7, Fin 2, Fin (- 6), Fin (- 7)] [Fin 0, Fin 0, Fin 0, Fin 0]
        = Inr (map Fin fractions) \<and> length fractions = 5 \<and>
      \<bar>sum_list fractions - 1\<bar> \<le> 5 / 2 ^ 54) \<and>
   (\<Sum>iv\<leftarrow>interv_tab.
      bin_count iv [Fin 7, Fin 2, Fin (- 6), Fin (- 7)] [Fin 0, Fin 0, Fin 0, Fin 0]) = 4"
proof -
  let ?nfw = "[Fin 7, Fin 2, Fin (- 6), Fin (- 7)]"
  let ?dc14 = "[Fin 0, Fin 0, Fin 0, Fin 0]"
  have h: "\<forall>j<length ?nfw. isfinite (diffin ?nfw ?dc14 j)"
    by (simp add: diffin_def fsub_def nth_Cons round64_numeral round64_neg_numeral
        split: nat.split)
  have v: "dBIC_fractions ?nfw ?dc14 = Inr (map Fin [1 / 2, 0, 1 / 4, 0, 1 / 4])"
    by (simp add: dBIC_fractions_def interv_tab_def diffin_def fsub_def upt_rec truediv_def
        round64_numeral round64_neg_numeral round64_zero round64_half round64_quarter)
  have ne: "?nfw \<noteq> []"
    by simp
  have len: "length ?nfw \<le> length ?dc14"
    by simp
  have l4: "length ?nfw = 4"
    by simp
  show ?thesis
    using v dBIC_fractions_sum_to_one [OF ne len h] unfolding l4 by blast
qed

text \<open>
  Where C1 fails as first stated.  Both galaxies of the first run have a BIC that is
  not NaN for both models, but the second has an infinite BIC twice; its difference is
  NaN, it is masked and counted in no interval, and the fractions sum to one half.  In
  the second run both BIC values are finite floats, their difference is too large for a
  float, the infinity is masked, and all five fractions are zero.  In the third run six
  galaxies are counted once, four times and once; the printed fractions are the floats
  nearest to \<open>1/6\<close>, \<open>2/3\<close> and \<open>1/6\<close>, and they sum to \<open>1 - 2^-54\<close>.
\<close>

theorem dBIC_fractions_infinite_counterexample:
  "\<not> isnan PInf \<and> \<not> isnan (Fin 10) \<and> \<not> isnan (Fin 0) \<and>
   dBIC_fractions [Fin 10, PInf] [Fin 0, PInf] = Inr (map Fin [0, 0, 0, 0, 1 / 2]) \<and>
   sum_list [0, 0, 0, 0, 1 / 2 :: real] \<noteq> 1 \<and>
   is_float64 (2 ^ 1023) \<and> is_float64 (- (2 ^ 1023)) \<and>
   diffin [Fin (2 ^ 1023)] [Fin (- (2 ^ 1023))] 0 = PInf \<and>
   dBIC_fractions [Fin (2 ^ 1023)] [Fin (- (2 ^ 1023))] = Inr (map Fin [0, 0, 0, 0, 0]) \<and>
   dBIC_fractions [Fin 0, Fin 3, Fin 3, Fin 3, Fin 3, Fin 7]
       [Fin 0, Fin 0, Fin 0, Fin 0, Fin 0, Fin 0]
     = Inr (map Fin [0, 0, 6004799503160661 / 2 ^ 55, 6004799503160661 / 2 ^ 53,
          6004799503160661 / 2 ^ 55]) \<and>
   sum_list [0, 0, 6004799503160661 / 2 ^ 55, 6004799503160661 / 2 ^ 53,
       6004799503160661 / 2 ^ 55 :: real] = 1 - 1 / 2 ^ 54"
proof -
  define big :: real where "big = 2 ^ 1023"
  have 1: "dBIC_fractions [Fin 10, PInf] [Fin 0, PInf] = Inr (map Fin [0, 0, 0, 0, 1 / 2])"
    by (simp add: dBIC_fractions_def interv_tab_def diffin_def fsub_def upt_rec truediv_def
        round64_numeral round64_zero round64_half)
  have "big * subnormal_scale = of_int (2 ^ 52) * 2 ^ 2045"
    unfolding big_def subnormal_scale_def by (simp flip: power_add)
  then have "round_pos big = Fin big"
    by (intro round_pos_exact [of "2 ^ 52" 2045]) simp_all
  moreover have "0 \<le> big"
    by (simp add: big_def)
  ultimately have r: "round64 big = Fin big"
    by (simp add: round64_nonneg_arg)
  then have 2: "is_float64 big"
    by (simp add: is_float64_def)
  have 3: "is_float64 (- big)"
    unfolding is_float64_def round64_neg r by simp
  have "2 ^ 1024 \<le> big - - big"
    by (simp add: big_def)
  then have "round64 (big - - big) = PInf"
    by (rule round64_overflow)
  then have 4: "diffin [Fin big] [Fin (- big)] 0 = PInf"
    unfolding diffin_def by (simp only: nth_Cons_0 fsub_numbers)
  have 5: "dBIC_fractions [Fin big] [Fin (- big)] = Inr (map Fin [0, 0, 0, 0, 0])"
    by (simp add: dBIC_fractions_def interv_tab_def 4 truediv_def round64_zero)
  have "round64 (1 / 6) = Fin (of_int (round_half_even (1 / 6 * 2 ^ 55)) / 2 ^ 55)"
    by (rule round64_eval) simp_all
  moreover have "round_half_even (1 / 6 * 2 ^ 55) = 6004799503160661"
    by (simp add: round_half_even_def Let_def)
  ultimately have r6: "round64 (1 / 6) = Fin (6004799503160661 / 2 ^ 55)"
    by simp
  have "round64 (2 / 3) = Fin (of_int (round_half_even (2 / 3 * 2 ^ 53)) / 2 ^ 53)"
    by (rule round64_eval) simp_all
  moreover have "round_half_even (2 / 3 * 2 ^ 53) = 6004799503160661"
    by (simp add: round_half_even_def Let_def)
  ultimately have r23: "round64 (2 / 3) = Fin (6004799503160661 / 2 ^ 53)"
    by simp
  have 6: "dBIC_fractions [Fin 0, Fin 3, Fin 3, Fin 3, Fin 3, Fin 7]
       [Fin 0, Fin 0, Fin 0, Fin 0, Fin 0, Fin 0]
     = Inr (map Fin [0, 0, 6004799503160661 / 2 ^ 55, 6004799503160661 / 2 ^ 53,
          6004799503160661 / 2 ^ 55])"
    by (simp add: dBIC_fractions_def interv_tab_def diffin_def fsub_def upt_rec truediv_def
        round64_numeral round64_zero r6 r23)
  have 7: "sum_list [0, 0, 6004799503160661 / 2 ^ 55, 6004799503160661 / 2 ^ 53,
       6004799503160661 / 2 ^ 55 :: real] = 1 - 1 / 2 ^ 54"
    by simp
  show ?thesis
    using 1 2 3 4 5 6 7 unfolding big_def by simp
qed

text \<open>
  Claim C2, amended.  The \<open>\<Delta>BIC\<close> cell compares the two arrays by position and checks no
  galaxy sets.  A galaxy with NaN in either array is counted in no interval, but it stays
  in the denominator, which is the length of the NFW array.  A DC14 array shorter than
  the NFW array raises an index error; a longer one is accepted and its surplus entries
  are ignored; an empty NFW array raises a division by zero.
\<close>

theorem dBIC_fractions_population:
  "dBIC_fractions nfw dc14 =
     (if length dc14 < length nfw then Inl IndexError
      else if nfw = [] then Inl ZeroDivisionError
      else Inr (map (\<lambda>iv. round64 (real (bin_count iv nfw dc14) / real (length nfw)))
             interv_tab)) \<and>
   (isnan (nfw ! j) \<or> isnan (dc14 ! j) \<longrightarrow>
      \<not> in_interval iv (masked_invalid (diffin nfw dc14 j)))"
  using dBIC_fractions_char nan_never_counted by blast

text \<open>
  A run of C2: the NaN galaxy is in no interval and in the denominator \<open>3\<close>, the
  fourth DC14 entry is ignored; a DC14 array that is too short raises.
\<close>

theorem dBIC_fractions_population_witness:
  "dBIC_fractions [Fin 0, NaN, Fin 3] [Fin 0, Fin 0, Fin 0, Fin 9]
     = Inr (map (\<lambda>iv. round64
              (real (bin_count iv [Fin 0, NaN, Fin 3] [Fin 0, Fin 0, Fin 0, Fin 9]) / 3))
          interv_tab) \<and>
   isnan ([Fin 0, NaN, Fin 3] ! 1) \<and>
   \<not> in_interval (Fin (- 2), Fin 2)
       (masked_invalid (diffin [Fin 0, NaN, Fin 3] [Fin 0, Fin 0, Fin 0, Fin 9] 1)) \<and>
   dBIC_fractions [Fin 0, Fin 1] [Fin 0] = Inl IndexError"
  using dBIC_fractions_population [of "[Fin 0, NaN, Fin 3]" "[Fin 0, Fin 0, Fin 0, Fin 9]" 1
      "(Fin (- 2), Fin 2)"]
    dBIC_fractions_population [of "[Fin 0, Fin 1]" "[Fin 0]" 0 "(Fin (- 2), Fin 2)"]
  by simp

text \<open>
  Where C2 fails as first stated: with a NaN for the second of two galaxies nothing is
  raised and the denominator is still two (the fraction is one half, not one); with one
  more DC14 galaxy than NFW galaxies nothing is raised either.
\<close>

theorem dBIC_fractions_nan_counterexample:
  "dBIC_fractions [Fin 0, NaN] [Fin 0, Fin 0] = Inr [Fin 0, Fin 0, Fin (1 / 2), Fin 0, Fin 0] \<and>
   dBIC_fractions [Fin 0] [Fin 0, Fin 10] = Inr [Fin 0, Fin 0, Fin 1, Fin 0, Fin 0]"
  by (simp add: dBIC_fractions_def interv_tab_def diffin_def fsub_def upt_rec truediv_def
      round64_zero round64_one round64_half)



text \<open>
  Claim C4.  The per-galaxy BIC difference is antisymmetric: the difference of model A
  against model B is the negation of the difference of B against A, for all values of
  the two arrays (for two numbers it is the negated number; where one difference is
  undefined, so is the other).
\<close>

theorem diffin_antisymmetric: "diffin a b j = fneg (diffin b a j)"
  by (simp add: diffin_def fsub_def fneg_fadd fneg_fneg fadd_commute)

section \<open>Properties of the sums, the means and the medians\<close>

lemma foldl_fadd_closed:
  assumes "\<And>a b. P a \<Longrightarrow> P b \<Longrightarrow> P (fadd a b)" and "P acc" and "\<forall>x\<in>set xs. P x"
  shows "P (foldl fadd acc xs)"
  using assms(2,3) by (induction xs arbitrary: acc) (simp_all add: assms(1))

lemma lane_index:
  assumes "k < 8" and "g < length a div 8"
  shows "8 * g + k < length a"
proof -
  have "8 * g + k < 8 * (length a div 8)"
    using assms by linarith
  also have "\<dots> \<le> length a"
    by simp
  finally show ?thesis .
qed

lemma lane_closed:
  assumes "\<And>a b. P a \<Longrightarrow> P b \<Longrightarrow> P (fadd a b)" and "\<forall>x\<in>set a. P x"
    and "k < 8" and "8 \<le> length a"
  shows "P (lane a k)"
  unfolding lane_def
proof (rule foldl_fadd_closed [where P = P])
  show "P (a ! k)"
    using assms(2,3,4) by simp
  show "\<forall>x\<in>set (map (\<lambda>g. a ! (8 * g + k)) [1..<length a div 8]). P x"
  proof
    fix x
    assume "x \<in> set (map (\<lambda>g. a ! (8 * g + k)) [1..<length a div 8])"
    then obtain g where g: "g < length a div 8" "x = a ! (8 * g + k)"
      by auto
    have "8 * g + k < length a"
      using assms(3) g(1) by (rule lane_index)
    then have "a ! (8 * g + k) \<in> set a"
      by simp
    with assms(2) g(2) show "P x"
      by simp
  qed
qed (rule assms(1))

lemma block_sum_closed:
  assumes "\<And>a b. P a \<Longrightarrow> P b \<Longrightarrow> P (fadd a b)" and "\<forall>x\<in>set a. P x" and "8 \<le> length a"
  shows "P (block_sum a)"
proof -
  have r: "P (map (lane a) [0..<8] ! k)" if "k < 8" for k
    using that lane_closed [of P a k, OF assms(1,2) that assms(3)] by simp
  have res: "P (fadd (fadd (fadd (map (lane a) [0..<8] ! 0) (map (lane a) [0..<8] ! 1))
                      (fadd (map (lane a) [0..<8] ! 2) (map (lane a) [0..<8] ! 3)))
                (fadd (fadd (map (lane a) [0..<8] ! 4) (map (lane a) [0..<8] ! 5))
                      (fadd (map (lane a) [0..<8] ! 6) (map (lane a) [0..<8] ! 7))))"
    by (intro assms(1) r) simp_all
  have rest: "\<forall>x\<in>set (drop (length a - length a mod 8) a). P x"
    using assms(2) by (meson in_set_dropD)
  show ?thesis
    unfolding block_sum_def Let_def by (rule foldl_fadd_closed [where P = P, OF assms(1) res rest])
qed

lemma pairwise_sum_closed:
  assumes "\<And>a b. P a \<Longrightarrow> P b \<Longrightarrow> P (fadd a b)" and "P (Fin 0)" and "\<forall>x\<in>set a. P x"
  shows "P (pairwise_sum a)"
  using assms(3)
proof (induction a rule: pairwise_sum.induct)
  case (1 a)
  consider "length a < 8" | "8 \<le> length a" "length a \<le> 128" | "128 < length a"
    by linarith
  then show ?case
  proof cases
    case 1
    then have "pairwise_sum a = foldl fadd (Fin 0) a"
      by (simp add: pairwise_sum.simps)
    then show ?thesis
      using foldl_fadd_closed [of P "Fin 0" a, OF assms(1,2) "1.prems"] by simp
  next
    case 2
    then have "pairwise_sum a = block_sum a"
      by (simp add: pairwise_sum.simps)
    then show ?thesis
      using block_sum_closed [of P a, OF assms(1) "1.prems" 2(1)] by simp
  next
    case 3
    define n2 where "n2 = length a div 2 - (length a div 2) mod 8"
    have s: "pairwise_sum a = fadd (pairwise_sum (take n2 a)) (pairwise_sum (drop n2 a))"
      using 3 by (subst pairwise_sum.simps) (simp add: n2_def Let_def)
    have c: "\<not> length a < 8" "\<not> length a \<le> 128"
      using 3 by simp_all
    have "P (pairwise_sum (take n2 a))"
    proof (rule "1.IH"(1) [OF c n2_def])
      show "\<forall>x\<in>set (take n2 a). P x"
        using "1.prems" by (meson in_set_takeD)
    qed
    moreover have "P (pairwise_sum (drop n2 a))"
    proof (rule "1.IH"(2) [OF c n2_def])
      show "\<forall>x\<in>set (drop n2 a). P x"
        using "1.prems" by (meson in_set_dropD)
    qed
    ultimately show ?thesis
      unfolding s by (rule assms(1))
  qed
qed

lemma np_sum_closed:
  assumes "\<And>a b. P a \<Longrightarrow> P b \<Longrightarrow> P (fadd a b)" and "P (Fin 0)" and "\<forall>x\<in>set a. P x"
  shows "P (np_sum a)"
  unfolding np_sum_def
  by (intro assms(1) assms(2) pairwise_sum_closed [where P = P] assms(3))

lemma pairwise_sum_small: "length a < 8 \<Longrightarrow> pairwise_sum a = foldl fadd (Fin 0) a"
  by (simp add: pairwise_sum.simps)

lemma np_sum_nonneg: "\<forall>x\<in>set a. nonneg x \<Longrightarrow> nonneg (np_sum a)"
  by (rule np_sum_closed [where P = nonneg]) (simp_all add: nonneg_fadd)

lemma np_sum_zeros: "\<forall>x\<in>set a. x = Fin 0 \<Longrightarrow> np_sum a = Fin 0"
  by (rule np_sum_closed [where P = "\<lambda>x. x = Fin 0"]) (simp_all add: round64_zero)

lemma fdiv_count_nonneg: "nonneg s \<Longrightarrow> 0 < n \<Longrightarrow> nonneg (fdiv_count s n)"
  by (cases s) (simp_all add: round64_nonneg)

lemma np_mean_nonneg:
  assumes "xs \<noteq> []" and "\<forall>x\<in>set xs. nonneg x"
  shows "nonneg (np_mean xs)"
  unfolding np_mean_def using assms by (intro fdiv_count_nonneg np_sum_nonneg) simp_all

lemma np_median_nonneg:
  assumes "xs \<noteq> []" and "\<forall>x\<in>set xs. nonneg x"
  shows "nonneg (np_median xs)"
proof -
  let ?part = "sort_key sort_rank xs"
  have all: "\<forall>x\<in>set ?part. nonneg x"
    using assms(2) by simp
  have nonan: "\<not> list_ex isnan xs"
    using assms(2) by (auto simp: list_ex_iff dest: nonneg_not_nan)
  have pos: "0 < length xs"
    using assms(1) by simp
  then have idx: "length xs div 2 < length xs" "length xs div 2 - 1 < length xs"
    by linarith+
  have one: "nonneg (np_mean (take 1 (drop (length xs div 2) ?part)))"
  proof (rule np_mean_nonneg)
    show "take 1 (drop (length xs div 2) ?part) \<noteq> []"
      using idx by simp
    show "\<forall>x\<in>set (take 1 (drop (length xs div 2) ?part)). nonneg x"
      using all by (meson in_set_dropD in_set_takeD)
  qed
  have two: "nonneg (np_mean (take 2 (drop (length xs div 2 - 1) ?part)))"
  proof (rule np_mean_nonneg)
    show "take 2 (drop (length xs div 2 - 1) ?part) \<noteq> []"
      using idx by simp
    show "\<forall>x\<in>set (take 2 (drop (length xs div 2 - 1) ?part)). nonneg x"
      using all by (meson in_set_dropD in_set_takeD)
  qed
  show ?thesis
    using nonan one two by (simp add: np_median_def Let_def)
qed

lemma nanmedian_nonneg:
  assumes "\<forall>x\<in>set arr. isnan x \<or> nonneg x" and "filter (\<lambda>x. \<not> isnan x) arr \<noteq> []"
  shows "nonneg (nanmedian arr)"
proof -
  have "nonneg (np_median (filter (\<lambda>x. \<not> isnan x) arr))"
    using assms by (intro np_median_nonneg) auto
  with assms(2) show ?thesis
    by (simp add: nanmedian_def)
qed

lemma nanmean_nonneg:
  assumes "\<forall>x\<in>set arr. isnan x \<or> nonneg x" and "filter (\<lambda>x. \<not> isnan x) arr \<noteq> []"
  shows "nonneg (nanmean arr)"
proof -
  have "nonneg (np_sum (map (\<lambda>x. if isnan x then Fin 0 else x) arr))"
    using assms(1) by (intro np_sum_nonneg) auto
  moreover have "0 < length (filter (\<lambda>x. \<not> isnan x) arr)"
    using assms(2) by simp
  ultimately show ?thesis
    unfolding nanmean_def Let_def by (rule fdiv_count_nonneg)
qed

lemma nanmean_no_valid:
  assumes "filter (\<lambda>x. \<not> isnan x) arr = []"
  shows "nanmean arr = NaN"
proof -
  have "\<forall>x\<in>set arr. isnan x"
    using assms by (simp add: filter_empty_conv)
  then have "np_sum (map (\<lambda>x. if isnan x then Fin 0 else x) arr) = Fin 0"
    by (intro np_sum_zeros) auto
  with assms show ?thesis
    by (simp add: nanmean_def)
qed

lemma inj_sort_rank: "inj sort_rank"
proof (rule injI)
  fix a b
  assume "sort_rank a = sort_rank b"
  then show "a = b"
    by (cases a; cases b) simp_all
qed

lemma sort_rank_perm:
  assumes "mset xs = mset ys"
  shows "sort_key sort_rank xs = sort_key sort_rank ys"
proof (rule sort_key_inj_key_eq)
  show "mset xs = mset (sort_key sort_rank ys)"
    using assms by simp
  show "inj_on sort_rank (set xs)"
    using inj_sort_rank by (rule inj_on_subset) simp
  show "sorted (map sort_rank (sort_key sort_rank ys))"
    by simp
qed

lemma np_median_perm:
  assumes "mset xs = mset ys"
  shows "np_median xs = np_median ys"
proof -
  have "length xs = length ys"
    using assms by (rule mset_eq_length)
  moreover have "list_ex isnan xs = list_ex isnan ys"
    using assms by (auto simp: list_ex_iff dest: mset_eq_setD)
  ultimately show ?thesis
    unfolding np_median_def sort_rank_perm [OF assms] by simp
qed

lemma nanmedian_perm:
  assumes "mset xs = mset ys"
  shows "nanmedian xs = nanmedian ys"
proof -
  have m: "mset (filter (\<lambda>x. \<not> isnan x) xs) = mset (filter (\<lambda>x. \<not> isnan x) ys)"
    using assms by simp
  then have "(filter (\<lambda>x. \<not> isnan x) xs = []) = (filter (\<lambda>x. \<not> isnan x) ys = [])"
    by (metis mset_zero_iff)
  then show ?thesis
    unfolding nanmedian_def by (simp add: np_median_perm [OF m])
qed

section \<open>Properties of the fitter and of the aggregates\<close>

lemma Chi_sq_fit_result:
  "Chi_sq (fit_result k N out) = (case out of Minimum c \<Rightarrow> Fin c | NotConverged \<Rightarrow> NaN)"
  by (cases out) simp_all

lemma batch_column:
  assumes "\<forall>g\<in>set galaxies. \<forall>c. optimize g = Minimum c \<longrightarrow> 0 \<le> c"
  shows "\<forall>x\<in>set (map Chi_sq (batch_fit (per_galaxy_fitter k n_points optimize) galaxies)).
           isnan x \<or> nonneg x"
  using assms
  by (auto simp: batch_fit_def per_galaxy_fitter_def Chi_sq_fit_result
      split: optimizer_outcome.split)

text \<open>
  Where C5 fails as first stated: two of four galaxies have a NaN BIC for the first
  model.  They are counted in no interval, but the \<open>\<Delta>BIC\<close> fractions still divide by
  four: the two valid galaxies make one quarter each, not one half each.
\<close>

theorem failed_fit_in_denominator_counterexample:
  "dBIC_fractions [Fin 8, NaN, Fin 1, NaN] [Fin 0, Fin 0, Fin 0, Fin 0]
     = Inr [Fin 0, Fin 0, Fin (1 / 4), Fin 0, Fin (1 / 4)] \<and>
   dBIC_fractions [Fin 8, Fin 1] [Fin 0, Fin 0]
     = Inr [Fin 0, Fin 0, Fin (1 / 2), Fin 0, Fin (1 / 2)]"
  by (simp add: dBIC_fractions_def interv_tab_def diffin_def fsub_def upt_rec truediv_def
      round64_numeral round64_zero round64_one round64_half round64_quarter)

text \<open>
  Claim C5, amended.  The median and the mean that the notebooks print skip the NaN
  entries of a column, whatever fit produced them: the median is the median of the
  entries that are not NaN, and the mean is the sum with every NaN taken as zero, over
  the number of entries that are not NaN.  When the other entries are not negative, as a
  \<open>\<chi>\<^sup>2\<close> is, and there is at least one, neither the median nor the mean is NaN; when
  every entry is NaN, both are NaN; nothing is raised.  The \<open>\<Delta>BIC\<close> fractions do not
  skip them: the denominator is the length of the whole array.  In a batch, every
  galaxy has its entry, the entry of a failed fit is NaN and flagged, and the others
  hold their \<open>\<chi>\<^sup>2\<close>.
\<close>

theorem failed_fit_is_skipped:
  fixes optimize :: "'g \<Rightarrow> optimizer_outcome" and k :: nat and n_points :: "'g \<Rightarrow> nat"
    and galaxies :: "'g list" and chisq :: "npfloat list"
  defines "F \<equiv> per_galaxy_fitter k n_points optimize"
  defines "valid \<equiv> filter (\<lambda>x. \<not> isnan x) chisq"
  assumes "\<forall>x\<in>set chisq. isnan x \<or> nonneg x"
  shows "nanmedian chisq = (if valid = [] then NaN else np_median valid) \<and>
    nanmean chisq
      = fdiv_count (np_sum (map (\<lambda>x. if isnan x then Fin 0 else x) chisq)) (length valid) \<and>
    (valid \<noteq> [] \<longrightarrow>
       nonneg (nanmedian chisq) \<and> nonneg (nanmean chisq) \<and>
       \<not> isnan (nanmedian chisq) \<and> \<not> isnan (nanmean chisq)) \<and>
    (valid = [] \<longrightarrow> nanmedian chisq = NaN \<and> nanmean chisq = NaN) \<and>
    (nfw \<noteq> [] \<and> length nfw \<le> length dc14 \<longrightarrow>
       dBIC_fractions nfw dc14
         = Inr (map (\<lambda>iv. round64 (real (bin_count iv nfw dc14) / real (length nfw)))
             interv_tab)) \<and>
    length (batch_fit F galaxies) = length galaxies \<and>
    (\<forall>i<length galaxies. optimize (galaxies ! i) = NotConverged \<longrightarrow>
       Chi_sq (batch_fit F galaxies ! i) = NaN \<and> \<not> converged (batch_fit F galaxies ! i)) \<and>
    (\<forall>i<length galaxies. \<forall>c. optimize (galaxies ! i) = Minimum c \<longrightarrow>
       Chi_sq (batch_fit F galaxies ! i) = Fin c) \<and>
    ((\<forall>g\<in>set galaxies. \<forall>c. optimize g = Minimum c \<longrightarrow> 0 \<le> c) \<longrightarrow>
       (\<forall>x\<in>set (map Chi_sq (batch_fit F galaxies)). isnan x \<or> nonneg x))"
proof -
  have 1: "nanmedian chisq = (if valid = [] then NaN else np_median valid)"
    by (simp add: nanmedian_def valid_def)
  have 2: "nanmean chisq
      = fdiv_count (np_sum (map (\<lambda>x. if isnan x then Fin 0 else x) chisq)) (length valid)"
    by (simp add: nanmean_def valid_def)
  have 3: "nonneg (nanmedian chisq) \<and> nonneg (nanmean chisq) \<and>
       \<not> isnan (nanmedian chisq) \<and> \<not> isnan (nanmean chisq)" if "valid \<noteq> []"
    using that assms(3) unfolding valid_def
    by (intro conjI nonneg_not_nan nanmedian_nonneg nanmean_nonneg)
  have 4: "nanmedian chisq = NaN \<and> nanmean chisq = NaN" if "valid = []"
    using that unfolding valid_def by (simp add: nanmean_no_valid nanmedian_def)
  have 5: "dBIC_fractions nfw dc14
         = Inr (map (\<lambda>iv. round64 (real (bin_count iv nfw dc14) / real (length nfw)))
             interv_tab)" if "nfw \<noteq> [] \<and> length nfw \<le> length dc14"
    using that by (simp add: dBIC_fractions_char)
  have 6: "length (batch_fit F galaxies) = length galaxies"
    by (simp add: batch_fit_def)
  have 7: "\<forall>i<length galaxies. optimize (galaxies ! i) = NotConverged \<longrightarrow>
       Chi_sq (batch_fit F galaxies ! i) = NaN \<and> \<not> converged (batch_fit F galaxies ! i)"
    by (simp add: batch_fit_def F_def per_galaxy_fitter_def)
  have 8: "\<forall>i<length galaxies. \<forall>c. optimize (galaxies ! i) = Minimum c \<longrightarrow>
       Chi_sq (batch_fit F galaxies ! i) = Fin c"
    by (simp add: batch_fit_def F_def per_galaxy_fitter_def)
  have 9: "\<forall>x\<in>set (map Chi_sq (batch_fit F galaxies)). isnan x \<or> nonneg x"
    if "\<forall>g\<in>set galaxies. \<forall>c. optimize g = Minimum c \<longrightarrow> 0 \<le> c"
    unfolding F_def using that by (rule batch_column)
  from 1 2 3 4 5 6 7 8 9 show ?thesis
    by blast
qed

text \<open>
  A run of C5: three galaxies, the fit of the second fails; the median and the mean of
  \<open>1\<close> and \<open>3\<close> are \<open>2\<close>.
\<close>

theorem failed_fit_is_skipped_witness:
  "map Chi_sq (batch_fit (per_galaxy_fitter 2 (\<lambda>g. 10)
      (\<lambda>g. if g = (1::nat) then NotConverged else Minimum (real g + 1))) [0, 1, 2])
     = [Fin 1, NaN, Fin 3] \<and>
   nonneg (Fin 1) \<and> isnan NaN \<and> nonneg (Fin 3) \<and>
   nanmedian [Fin 1, NaN, Fin 3] = Fin 2 \<and>
   nanmean [Fin 1, NaN, Fin 3] = Fin 2 \<and>
   \<not> isnan (nanmedian [Fin 1, NaN, Fin 3]) \<and> \<not> isnan (nanmean [Fin 1, NaN, Fin 3])"
proof -
  have h: "\<forall>x\<in>set [Fin 1, NaN, Fin 3]. isnan x \<or> nonneg x"
    by simp
  note T = failed_fit_is_skipped [OF h]
  have v: "filter (\<lambda>x. \<not> isnan x) [Fin 1, NaN, Fin 3] \<noteq> []"
    by simp
  have n: "\<not> isnan (nanmedian [Fin 1, NaN, Fin 3]) \<and> \<not> isnan (nanmean [Fin 1, NaN, Fin 3])"
    using T [THEN conjunct2, THEN conjunct2, THEN conjunct1] v by blast
  have col: "map Chi_sq (batch_fit (per_galaxy_fitter 2 (\<lambda>g. 10)
      (\<lambda>g. if g = (1::nat) then NotConverged else Minimum (real g + 1))) [0, 1, 2])
     = [Fin 1, NaN, Fin 3]"
    by (simp add: batch_fit_def per_galaxy_fitter_def)
  have med: "nanmedian [Fin 1, NaN, Fin 3] = Fin 2"
    by (simp add: nanmedian_def np_median_def np_mean_def np_sum_def pairwise_sum_small
        round64_numeral round64_one round64_zero)
  have mean: "nanmean [Fin 1, NaN, Fin 3] = Fin 2"
    by (simp add: nanmean_def np_sum_def pairwise_sum_small
        round64_numeral round64_one round64_zero)
  from col med mean n show ?thesis
    by simp
qed




text \<open>
  Claim C7.  With at least one data point, the BIC does not decrease when the number of
  free parameters grows and \<open>\<chi>\<^sup>2\<close> and the number of data points stay the same.
\<close>

theorem BIC_mono_in_parameters:
  assumes "1 \<le> N" and "k1 \<le> k2"
  shows "BIC chi_sq k1 N \<le> BIC chi_sq k2 N"
proof -
  have "0 \<le> ln (real N)"
    using assms(1) by simp
  moreover have "real k1 \<le> real k2"
    using assms(2) by simp
  ultimately have "real k1 * ln (real N) \<le> real k2 * ln (real N)"
    by (rule mult_right_mono [rotated])
  then show ?thesis
    by (simp add: BIC_def)
qed

text \<open>A run of C7: five data points, two and three parameters.\<close>

theorem BIC_mono_in_parameters_witness:
  "(1::nat) \<le> 5 \<and> (2::nat) \<le> 3 \<and> BIC 7 2 5 \<le> BIC 7 3 5"
  using BIC_mono_in_parameters [of 5 2 3 7] by simp

section \<open>Sums that are exact\<close>

lemma fadd_units:
  assumes "e \<le> 1074" and "u + v < 2 ^ 53"
  shows "fadd (Fin (real u / 2 ^ e)) (Fin (real v / 2 ^ e)) = Fin (real (u + v) / 2 ^ e)"
proof -
  have "int (u + v) < 2 ^ 53"
    using assms(2) by (metis of_nat_less_numeral_power_cancel_iff)
  then have "\<bar>int (u + v)\<bar> < 2 ^ 53"
    by simp
  then have "round64 (of_int (int (u + v)) / 2 ^ e) = Fin (of_int (int (u + v)) / 2 ^ e)"
    using assms(1) by (rule round64_dyadic)
  then show ?thesis
    by (simp add: add_divide_distrib)
qed

lemma foldl_units:
  assumes "e \<le> 1074"
  shows "acc + sum_list us < 2 ^ 53 \<Longrightarrow>
    foldl fadd (Fin (real acc / 2 ^ e)) (map (\<lambda>u. Fin (real u / 2 ^ e)) us)
      = Fin (real (acc + sum_list us) / 2 ^ e)"
proof (induction us arbitrary: acc)
  case Nil
  then show ?case by simp
next
  case (Cons u us)
  from Cons.prems have b: "acc + u < 2 ^ 53" "(acc + u) + sum_list us < 2 ^ 53"
    by simp_all
  have "foldl fadd (Fin (real acc / 2 ^ e)) (map (\<lambda>u. Fin (real u / 2 ^ e)) (u # us))
      = foldl fadd (Fin (real (acc + u) / 2 ^ e)) (map (\<lambda>u. Fin (real u / 2 ^ e)) us)"
    unfolding list.map foldl.simps fadd_units [OF assms b(1)] ..
  also have "\<dots> = Fin (real ((acc + u) + sum_list us) / 2 ^ e)"
    using b(2) by (rule Cons.IH)
  finally show ?case
    by (simp add: add.assoc)
qed

lemma group_sum:
  fixes f :: "nat \<Rightarrow> nat"
  shows "(\<Sum>k<8. \<Sum>j<m. f (8 * j + k)) = (\<Sum>i<8 * m. f i)"
proof -
  have "(\<Sum>k<8. \<Sum>j<m. f (8 * j + k)) = (\<Sum>j<m. \<Sum>k<8. f (8 * j + k))"
    by (rule sum.swap)
  also have "\<dots> = (\<Sum>j<m. sum f {j * 8..<j * 8 + 8})"
  proof (rule sum.cong)
    fix j
    have "sum f {j * 8..<j * 8 + 8} = sum f {0 + j * 8..<8 + j * 8}"
      by (simp add: add.commute)
    also have "\<dots> = (\<Sum>k\<in>{0..<8}. f (k + j * 8))"
      by (rule sum.shift_bounds_nat_ivl)
    also have "\<dots> = (\<Sum>k<8. f (8 * j + k))"
      by (simp add: atLeast0LessThan add.commute mult.commute)
    finally show "(\<Sum>k<8. f (8 * j + k)) = sum f {j * 8..<j * 8 + 8}"
      by simp
  qed simp
  also have "\<dots> = sum f {..<m * 8}"
    by (rule sum.nat_group)
  finally show ?thesis
    by (simp add: mult.commute)
qed

lemma sum_take:
  fixes us :: "nat list"
  assumes "n \<le> length us"
  shows "(\<Sum>i<n. us ! i) = sum_list (take n us)"
proof -
  have "sum_list (take n us) = (\<Sum>i = 0..<length (take n us). take n us ! i)"
    by (rule sum_list_sum_nth)
  also have "\<dots> = (\<Sum>i = 0..<n. us ! i)"
    using assms by (intro sum.cong) simp_all
  finally show ?thesis
    by (simp add: atLeast0LessThan)
qed

lemma lane_units:
  assumes "e \<le> 1074" and "k < 8" and "8 \<le> length us"
    and "(\<Sum>j<length us div 8. us ! (8 * j + k)) < 2 ^ 53"
  shows "lane (map (\<lambda>u. Fin (real u / 2 ^ e)) us) k
    = Fin (real (\<Sum>j<length us div 8. us ! (8 * j + k)) / 2 ^ e)"
proof -
  let ?g = "\<lambda>u. Fin (real u / 2 ^ e)"
  let ?m = "length us div 8"
  let ?h = "\<lambda>j. us ! (8 * j + k)"
  have m: "1 \<le> ?m"
    using assms(3) by (simp add: Suc_le_eq div_greater_zero_iff)
  have split: "us ! k + sum_list (map ?h [1..<?m]) = (\<Sum>j<?m. ?h j)"
  proof -
    have "(\<Sum>j<?m. ?h j) = sum ?h {0..<?m}"
      by (simp add: atLeast0LessThan)
    also have "\<dots> = ?h 0 + sum ?h {Suc 0..<?m}"
      using m by (intro sum.atLeast_Suc_lessThan) simp
    also have "sum ?h {Suc 0..<?m} = sum_list (map ?h [1..<?m])"
      by (simp add: interv_sum_list_conv_sum_set_nat)
    finally show ?thesis
      by simp
  qed
  have a: "map (\<lambda>g. map ?g us ! (8 * g + k)) [1..<?m] = map ?g (map ?h [1..<?m])"
    using lane_index [OF assms(2), of _ us] by simp
  have b: "map ?g us ! k = ?g (us ! k)"
    using assms(2,3) by simp
  have "lane (map ?g us) k = foldl fadd (?g (us ! k)) (map ?g (map ?h [1..<?m]))"
    unfolding lane_def length_map a b ..
  also have "\<dots> = Fin (real (us ! k + sum_list (map ?h [1..<?m])) / 2 ^ e)"
    using assms(4) unfolding split [symmetric] by (rule foldl_units [OF assms(1)])
  finally show ?thesis
    unfolding split .
qed

lemma block_sum_units:
  assumes "e \<le> 1074" and "8 \<le> length us" and "sum_list us < 2 ^ 53"
  shows "block_sum (map (\<lambda>u. Fin (real u / 2 ^ e)) us) = Fin (real (sum_list us) / 2 ^ e)"
proof -
  let ?g = "\<lambda>u. Fin (real u / 2 ^ e)"
  let ?m = "length us div 8"
  define L where "L k = (\<Sum>j<?m. us ! (8 * j + k))" for k
  define T where "T = sum_list (take (8 * ?m) us)"
  define R where "R = sum_list (drop (8 * ?m) us)"
  have "sum_list us = sum_list (take (8 * ?m) us @ drop (8 * ?m) us)"
    by simp
  then have total: "sum_list us = T + R"
    unfolding T_def R_def sum_list_append .
  have "(\<Sum>k<8. L k) = (\<Sum>i<8 * ?m. us ! i)"
    unfolding L_def by (rule group_sum)
  also have "\<dots> = T"
    unfolding T_def by (rule sum_take) simp
  finally have "(\<Sum>k\<in>{..<Suc (Suc (Suc (Suc (Suc (Suc (Suc (Suc 0)))))))}. L k) = T"
    by (simp add: eval_nat_numeral)
  then have lanes: "L 0 + L 1 + L 2 + L 3 + L 4 + L 5 + L 6 + L 7 = T"
    by (simp add: eval_nat_numeral)
  have bound: "T + R < 2 ^ 53"
    using assms(3) total by simp
  have r: "map (lane (map ?g us)) [0..<8] ! k = ?g (L k)" if "k < 8" "L k < 2 ^ 53" for k
    using that lane_units [OF assms(1) that(1) assms(2)] by (simp add: L_def)
  have b: "L 0 < 2 ^ 53" "L 1 < 2 ^ 53" "L 2 < 2 ^ 53" "L 3 < 2 ^ 53"
      "L 4 < 2 ^ 53" "L 5 < 2 ^ 53" "L 6 < 2 ^ 53" "L 7 < 2 ^ 53"
    using lanes bound by linarith+
  have p: "L 0 + L 1 < 2 ^ 53" "L 2 + L 3 < 2 ^ 53" "L 4 + L 5 < 2 ^ 53" "L 6 + L 7 < 2 ^ 53"
      "(L 0 + L 1) + (L 2 + L 3) < 2 ^ 53" "(L 4 + L 5) + (L 6 + L 7) < 2 ^ 53"
      "((L 0 + L 1) + (L 2 + L 3)) + ((L 4 + L 5) + (L 6 + L 7)) < 2 ^ 53"
    using lanes bound by linarith+
  have "fadd (fadd (fadd (?g (L 0)) (?g (L 1))) (fadd (?g (L 2)) (?g (L 3))))
             (fadd (fadd (?g (L 4)) (?g (L 5))) (fadd (?g (L 6)) (?g (L 7))))
      = ?g (((L 0 + L 1) + (L 2 + L 3)) + ((L 4 + L 5) + (L 6 + L 7)))"
    unfolding fadd_units [OF assms(1) p(1)] fadd_units [OF assms(1) p(2)]
      fadd_units [OF assms(1) p(3)] fadd_units [OF assms(1) p(4)]
      fadd_units [OF assms(1) p(5)] fadd_units [OF assms(1) p(6)]
      fadd_units [OF assms(1) p(7)] ..
  also have "((L 0 + L 1) + (L 2 + L 3)) + ((L 4 + L 5) + (L 6 + L 7)) = T"
    using lanes by simp
  finally have res: "fadd (fadd (fadd (?g (L 0)) (?g (L 1))) (fadd (?g (L 2)) (?g (L 3))))
             (fadd (fadd (?g (L 4)) (?g (L 5))) (fadd (?g (L 6)) (?g (L 7)))) = ?g T" .
  have d: "length (map ?g us) - length (map ?g us) mod 8 = 8 * ?m"
    by (simp add: minus_mod_eq_mult_div)
  have "block_sum (map ?g us) = foldl fadd (?g T) (drop (8 * ?m) (map ?g us))"
    unfolding block_sum_def Let_def d
    using r [of 0] r [of 1] r [of 2] r [of 3] r [of 4] r [of 5] r [of 6] r [of 7] b res
    by simp
  also have "\<dots> = foldl fadd (?g T) (map ?g (drop (8 * ?m) us))"
    by (simp only: drop_map)
  also have "\<dots> = Fin (real (T + sum_list (drop (8 * ?m) us)) / 2 ^ e)"
    using bound unfolding R_def by (rule foldl_units [OF assms(1)])
  finally show ?thesis
    unfolding total R_def .
qed

lemma pairwise_sum_units:
  assumes "e \<le> 1074"
  shows "sum_list us < 2 ^ 53 \<Longrightarrow>
    pairwise_sum (map (\<lambda>u. Fin (real u / 2 ^ e)) us) = Fin (real (sum_list us) / 2 ^ e)"
proof (induction us rule: length_induct)
  case (1 us)
  let ?g = "\<lambda>u. Fin (real u / 2 ^ e)"
  consider "length us < 8" | "8 \<le> length us" "length us \<le> 128" | "128 < length us"
    by linarith
  then show ?case
  proof cases
    case 1
    then have "pairwise_sum (map ?g us) = foldl fadd (Fin (real 0 / 2 ^ e)) (map ?g us)"
      by (simp add: pairwise_sum.simps)
    also have "\<dots> = Fin (real (0 + sum_list us) / 2 ^ e)"
      using "1.prems" by (intro foldl_units [OF assms]) simp
    finally show ?thesis
      by simp
  next
    case 2
    then have "pairwise_sum (map ?g us) = block_sum (map ?g us)"
      by (simp add: pairwise_sum.simps)
    then show ?thesis
      using block_sum_units [OF assms 2(1) "1.prems"] by simp
  next
    case 3
    define n2 where "n2 = length us div 2 - (length us div 2) mod 8"
    have n2: "0 < n2" "n2 < length us"
      using 3 unfolding n2_def by linarith+
    have s: "pairwise_sum (map ?g us)
        = fadd (pairwise_sum (map ?g (take n2 us))) (pairwise_sum (map ?g (drop n2 us)))"
      using 3 by (subst pairwise_sum.simps) (simp add: n2_def Let_def take_map drop_map)
    have "sum_list us = sum_list (take n2 us @ drop n2 us)"
      by simp
    then have total: "sum_list us = sum_list (take n2 us) + sum_list (drop n2 us)"
      unfolding sum_list_append .
    have b: "sum_list (take n2 us) < 2 ^ 53" "sum_list (drop n2 us) < 2 ^ 53"
        "sum_list (take n2 us) + sum_list (drop n2 us) < 2 ^ 53"
      using "1.prems" total by linarith+
    have "length (take n2 us) < length us"
      using n2 by simp
    then have t: "pairwise_sum (map ?g (take n2 us)) = Fin (real (sum_list (take n2 us)) / 2 ^ e)"
      using "1.IH" b(1) by blast
    have "length (drop n2 us) < length us"
      using n2 by simp
    then have d: "pairwise_sum (map ?g (drop n2 us)) = Fin (real (sum_list (drop n2 us)) / 2 ^ e)"
      using "1.IH" b(2) by blast
    show ?thesis
      unfolding s t d fadd_units [OF assms b(3)] total ..
  qed
qed

lemma np_sum_units:
  assumes "e \<le> 1074" and "sum_list us < 2 ^ 53"
  shows "np_sum (map (\<lambda>u. Fin (real u / 2 ^ e)) us) = Fin (real (sum_list us) / 2 ^ e)"
proof -
  have "0 + sum_list us < 2 ^ 53"
    using assms(2) by simp
  then have "fadd (Fin (real 0 / 2 ^ e)) (Fin (real (sum_list us) / 2 ^ e))
      = Fin (real (0 + sum_list us) / 2 ^ e)"
    by (rule fadd_units [OF assms(1)])
  then show ?thesis
    unfolding np_sum_def pairwise_sum_units [OF assms] by simp
qed

lemma sum_list_perm:
  fixes us :: "nat list"
  shows "mset us' = mset us \<Longrightarrow> sum_list us' = sum_list us"
  by (metis sum_mset_sum_list)

lemma units_no_nan: "filter (\<lambda>x. \<not> isnan x) (map (\<lambda>u. Fin (real u / 2 ^ e)) us)
    = map (\<lambda>u. Fin (real u / 2 ^ e)) us"
  by (induction us) simp_all

lemma units_nan_as_zero:
  "map (\<lambda>x. if isnan x then Fin 0 else x) (map (\<lambda>u. Fin (real u / 2 ^ e)) us)
    = map (\<lambda>u. Fin (real u / 2 ^ e)) us"
  by (induction us) simp_all

lemma sum_valid_units:
  assumes "e \<le> 1074" and "sum_list us < 2 ^ 53"
  shows "sum_valid (map (\<lambda>u. Fin (real u / 2 ^ e)) us) = Fin (real (sum_list us) / 2 ^ e)"
  unfolding sum_valid_def units_no_nan by (rule np_sum_units [OF assms])

lemma nanmean_units:
  assumes "e \<le> 1074" and "sum_list us < 2 ^ 53"
  shows "nanmean (map (\<lambda>u. Fin (real u / 2 ^ e)) us)
    = fdiv_count (Fin (real (sum_list us) / 2 ^ e)) (length us)"
  unfolding nanmean_def Let_def units_no_nan units_nan_as_zero np_sum_units [OF assms] by simp

lemma unit_entries_valid:
  "filter (\<lambda>x. \<not> isnan x) (map (unit_entry e) entries)
    = map (\<lambda>u. Fin (real u / 2 ^ e)) (List.map_filter (\<lambda>entry. entry) entries)"
  by (induction entries) (simp_all add: unit_entry_def split: option.split)

lemma unit_entries_nan_as_zero:
  "map (\<lambda>x. if isnan x then Fin 0 else x) (map (unit_entry e) entries)
    = map (\<lambda>u. Fin (real u / 2 ^ e))
        (map (\<lambda>entry. case entry of None \<Rightarrow> 0 | Some u \<Rightarrow> u) entries)"
  by (induction entries) (simp_all add: unit_entry_def split: option.split)

lemma unit_total_valid: "sum_list (List.map_filter (\<lambda>entry. entry) entries) = unit_total entries"
  by (induction entries) (simp_all add: unit_total_def split: option.split)

lemma unit_total_perm: "mset entries' = mset entries \<Longrightarrow> unit_total entries' = unit_total entries"
  unfolding unit_total_def by (metis mset_map sum_mset_sum_list)

lemma sum_valid_unit_entries:
  assumes "e \<le> 1074" and "unit_total entries < 2 ^ 53"
  shows "sum_valid (map (unit_entry e) entries) = Fin (real (unit_total entries) / 2 ^ e)"
proof -
  have "sum_list (List.map_filter (\<lambda>entry. entry) entries) < 2 ^ 53"
    using assms(2) by (simp only: unit_total_valid)
  then have "np_sum (map (\<lambda>u. Fin (real u / 2 ^ e)) (List.map_filter (\<lambda>entry. entry) entries))
      = Fin (real (sum_list (List.map_filter (\<lambda>entry. entry) entries)) / 2 ^ e)"
    by (rule np_sum_units [OF assms(1)])
  then show ?thesis
    unfolding sum_valid_def unit_entries_valid unit_total_valid .
qed

lemma nanmean_unit_entries:
  assumes "e \<le> 1074" and "unit_total entries < 2 ^ 53"
  shows "nanmean (map (unit_entry e) entries)
    = fdiv_count (Fin (real (unit_total entries) / 2 ^ e))
        (length (filter (\<lambda>x. \<not> isnan x) (map (unit_entry e) entries)))"
proof -
  have "np_sum (map (\<lambda>u. Fin (real u / 2 ^ e))
        (map (\<lambda>entry. case entry of None \<Rightarrow> 0 | Some u \<Rightarrow> u) entries))
      = Fin (real (sum_list (map (\<lambda>entry. case entry of None \<Rightarrow> 0 | Some u \<Rightarrow> u) entries)) / 2 ^ e)"
    using assms(2) unfolding unit_total_def by (rule np_sum_units [OF assms(1)])
  then show ?thesis
    unfolding nanmean_def Let_def unit_entries_nan_as_zero unit_total_def by simp
qed

lemma valid_count_perm:
  "mset xs = mset ys \<Longrightarrow>
   length (filter (\<lambda>x. \<not> isnan x) xs) = length (filter (\<lambda>x. \<not> isnan x) ys)"
  by (metis mset_filter size_mset)

text \<open>
  Where C8 fails as first stated: the same three \<open>\<chi>\<^sup>2\<close> values, all floats, summed
  in two orders.  From left to right \<open>1 + 2^-53\<close> is rounded back to \<open>1\<close> twice, while
  \<open>2^-53 + 2^-53 + 1\<close> is \<open>1 + 2^-52\<close>; with a fourth galaxy the mean that the
  notebook prints differs in the same way.
\<close>

theorem summed_chi_sq_rounding_counterexample:
  "mset [Fin 1, Fin (1 / 2 ^ 53), Fin (1 / 2 ^ 53)]
     = mset [Fin (1 / 2 ^ 53), Fin (1 / 2 ^ 53), Fin 1] \<and>
   is_float64 1 \<and> is_float64 (1 / 2 ^ 53) \<and>
   sum_valid [Fin 1, Fin (1 / 2 ^ 53), Fin (1 / 2 ^ 53)] = Fin 1 \<and>
   sum_valid [Fin (1 / 2 ^ 53), Fin (1 / 2 ^ 53), Fin 1] = Fin (1 + 1 / 2 ^ 52) \<and>
   nanmean [Fin 1, Fin (1 / 2 ^ 53), Fin (1 / 2 ^ 53), Fin 0] = Fin (1 / 4) \<and>
   nanmean [Fin (1 / 2 ^ 53), Fin (1 / 2 ^ 53), Fin 1, Fin 0] = Fin (1 / 4 + 1 / 2 ^ 54)"
proof -
  define eps :: real where "eps = 1 / 2 ^ 53"
  have e1: "is_float64 eps"
    unfolding eps_def using is_float64_dyadic [of 1 53] by simp
  have f1: "is_float64 1"
    by (simp add: is_float64_def round64_one)
  have a0: "fadd (Fin 0) (Fin 1) = Fin 1"
    by (simp add: round64_one)
  have "round64 (1 + eps) = Fin (of_int (round_half_even ((1 + eps) * 2 ^ 52)) / 2 ^ 52)"
    by (rule round64_eval) (simp_all add: eps_def)
  moreover have "round_half_even ((1 + eps) * 2 ^ 52) = 2 ^ 52"
    by (simp add: round_half_even_def Let_def eps_def)
  ultimately have a1: "fadd (Fin 1) (Fin eps) = Fin 1"
    by simp
  have a2: "fadd (Fin 0) (Fin eps) = Fin eps"
    using e1 by (simp add: is_float64_def)
  have "round64 (of_int 1 / 2 ^ 52) = Fin (of_int 1 / 2 ^ 52)"
    by (rule round64_dyadic) simp_all
  then have a3: "fadd (Fin eps) (Fin eps) = Fin (2 * eps)"
    by (simp add: eps_def)
  have "round64 (of_int (2 ^ 52 + 1) / 2 ^ 52) = Fin (of_int (2 ^ 52 + 1) / 2 ^ 52)"
    by (rule round64_dyadic) simp_all
  then have r4: "round64 (1 + 2 * eps) = Fin (1 + 2 * eps)"
    by (simp add: eps_def)
  then have a4: "fadd (Fin (2 * eps)) (Fin 1) = Fin (1 + 2 * eps)"
    by (simp add: add.commute)
  have a5: "fadd (Fin 0) (Fin (1 + 2 * eps)) = Fin (1 + 2 * eps)"
    using r4 by simp
  have a6: "fadd (Fin 1) (Fin 0) = Fin 1"
    by (simp add: round64_one)
  have a7: "fadd (Fin (1 + 2 * eps)) (Fin 0) = Fin (1 + 2 * eps)"
    using r4 by simp
  have q1: "round64 (1 / 4) = Fin (1 / 4)"
    by (rule round64_quarter)
  have "round64 (of_int (2 ^ 52 + 1) / 2 ^ 54) = Fin (of_int (2 ^ 52 + 1) / 2 ^ 54)"
    by (rule round64_dyadic) simp_all
  then have q2: "round64 ((1 + 2 * eps) / 4) = Fin (1 / 4 + eps / 2)"
    by (simp add: eps_def)
  have s1: "sum_valid [Fin 1, Fin eps, Fin eps] = Fin 1"
    by (simp add: sum_valid_def np_sum_def pairwise_sum_small a0 a1 del: fadd.simps)
  have s2: "sum_valid [Fin eps, Fin eps, Fin 1] = Fin (1 + 2 * eps)"
    by (simp add: sum_valid_def np_sum_def pairwise_sum_small a2 a3 a4 a5 del: fadd.simps)
  have m1: "nanmean [Fin 1, Fin eps, Fin eps, Fin 0] = Fin (1 / 4)"
    by (simp add: nanmean_def np_sum_def pairwise_sum_small a0 a1 a6 q1 del: fadd.simps)
  have m2: "nanmean [Fin eps, Fin eps, Fin 1, Fin 0] = Fin (1 / 4 + eps / 2)"
    by (simp add: nanmean_def np_sum_def pairwise_sum_small a2 a3 a4 a5 a7 q2 del: fadd.simps)
  show ?thesis
    using e1 f1 s1 s2 m1 m2 by (simp add: eps_def)
qed

text \<open>
  Claim C8, amended.  The median that the notebooks print and the number of valid
  entries do not depend on the order of the galaxies: two arrays with the same entries
  in any order have the same median, and so have two tables whose concatenated subsets
  are rearrangements of each other.  A sum of floats is rounded at every addition and
  can differ between two orders in its last bits; it is the same in every order, and
  exact, when the valid entries are whole numbers of a unit \<open>2^-e\<close> and their total is
  below \<open>2^53\<close> units (whole numbers below \<open>2^53\<close>, for instance): then the summed
  \<open>\<chi>\<^sup>2\<close> over the valid galaxies is the total, and the mean that the notebooks print is
  the same in every order as well.
\<close>

theorem summed_chi_sq_order_independent:
  "(mset chisq' = mset chisq \<longrightarrow>
      nanmedian chisq' = nanmedian chisq \<and>
      length (filter (\<lambda>x. \<not> isnan x) chisq') = length (filter (\<lambda>x. \<not> isnan x) chisq)) \<and>
   (concat_subsets tbl ''Chi_sq'' = Inr chisq \<and> concat_subsets tbl' ''Chi_sq'' = Inr chisq' \<and>
    mset chisq' = mset chisq \<longrightarrow>
      checks_DC14_NFW_redchi [(key, tbl')] = checks_DC14_NFW_redchi [(key, tbl)]) \<and>
   (e \<le> 1074 \<and> unit_total entries < 2 ^ 53 \<and> mset entries' = mset entries \<longrightarrow>
      sum_valid (map (unit_entry e) entries) = Fin (real (unit_total entries) / 2 ^ e) \<and>
      sum_valid (map (unit_entry e) entries') = sum_valid (map (unit_entry e) entries) \<and>
      nanmean (map (unit_entry e) entries') = nanmean (map (unit_entry e) entries)) \<and>
   (e \<le> 1074 \<and> unit_total entries < 2 ^ 53 \<and> mset entries' = mset entries \<and>
    concat_subsets tbl ''Chi_sq'' = Inr (map (unit_entry e) entries) \<and>
    concat_subsets tbl' ''Chi_sq'' = Inr (map (unit_entry e) entries') \<longrightarrow>
      summed_chi_sq tbl' = summed_chi_sq tbl \<and>
      checks_Einasto_NFW_chisq [(key, tbl')] = checks_Einasto_NFW_chisq [(key, tbl)])"
proof -
  have 1: "nanmedian chisq' = nanmedian chisq \<and>
      length (filter (\<lambda>x. \<not> isnan x) chisq') = length (filter (\<lambda>x. \<not> isnan x) chisq)"
    if "mset chisq' = mset chisq" for chisq' chisq
    using nanmedian_perm [OF that] valid_count_perm [OF that] by blast
  have 2: "checks_DC14_NFW_redchi [(key, tbl')] = checks_DC14_NFW_redchi [(key, tbl)]"
    if "concat_subsets tbl ''Chi_sq'' = Inr chisq" "concat_subsets tbl' ''Chi_sq'' = Inr chisq'"
      "mset chisq' = mset chisq"
    using that(1,2) nanmedian_perm [OF that(3)] by simp
  have 3: "sum_valid (map (unit_entry e) entries) = Fin (real (unit_total entries) / 2 ^ e) \<and>
      sum_valid (map (unit_entry e) entries') = sum_valid (map (unit_entry e) entries) \<and>
      nanmean (map (unit_entry e) entries') = nanmean (map (unit_entry e) entries)"
    if "e \<le> 1074" "unit_total entries < 2 ^ 53" "mset entries' = mset entries"
  proof -
    have t: "unit_total entries' = unit_total entries"
      using that(3) by (rule unit_total_perm)
    have b: "unit_total entries' < 2 ^ 53"
      using that(2) unfolding t .
    have "mset (map (unit_entry e) entries') = mset (map (unit_entry e) entries)"
      using that(3) by simp
    then have c: "length (filter (\<lambda>x. \<not> isnan x) (map (unit_entry e) entries'))
        = length (filter (\<lambda>x. \<not> isnan x) (map (unit_entry e) entries))"
      by (rule valid_count_perm)
    show ?thesis
      unfolding sum_valid_unit_entries [OF that(1,2)] sum_valid_unit_entries [OF that(1) b]
        nanmean_unit_entries [OF that(1,2)] nanmean_unit_entries [OF that(1) b] t c
      by simp
  qed
  have 4: "summed_chi_sq tbl' = summed_chi_sq tbl \<and>
      checks_Einasto_NFW_chisq [(key, tbl')] = checks_Einasto_NFW_chisq [(key, tbl)]"
    if "e \<le> 1074 \<and> unit_total entries < 2 ^ 53 \<and> mset entries' = mset entries \<and>
      concat_subsets tbl ''Chi_sq'' = Inr (map (unit_entry e) entries) \<and>
      concat_subsets tbl' ''Chi_sq'' = Inr (map (unit_entry e) entries')"
  proof -
    from that have h: "e \<le> 1074" "unit_total entries < 2 ^ 53" "mset entries' = mset entries"
      and c: "concat_subsets tbl ''Chi_sq'' = Inr (map (unit_entry e) entries)"
        "concat_subsets tbl' ''Chi_sq'' = Inr (map (unit_entry e) entries')"
      by blast+
    have m: "mset (map (unit_entry e) entries') = mset (map (unit_entry e) entries)"
      using h(3) by simp
    show ?thesis
      using 3 [OF h] nanmedian_perm [OF m] by (simp add: summed_chi_sq_def c)
  qed
  from 1 [of chisq' chisq] 2 3 4 show ?thesis
    by blast
qed

text \<open>
  A run of C8: three entries, one of them NaN, in two orders; the summed \<open>\<chi>\<^sup>2\<close> is
  \<open>4\<close> and the mean is \<open>2\<close> in both.
\<close>

theorem summed_chi_sq_order_independent_witness:
  "mset [Fin 3, NaN, Fin 1] = mset [NaN, Fin 1, Fin 3] \<and>
   nanmedian [NaN, Fin 1, Fin 3] = nanmedian [Fin 3, NaN, Fin 1] \<and>
   sum_valid [Fin 3, NaN, Fin 1] = Fin 4 \<and>
   sum_valid [NaN, Fin 1, Fin 3] = sum_valid [Fin 3, NaN, Fin 1] \<and>
   nanmean [NaN, Fin 1, Fin 3] = nanmean [Fin 3, NaN, Fin 1]"
proof -
  note T = summed_chi_sq_order_independent [where chisq = "[Fin 3, NaN, Fin 1]"
      and chisq' = "[NaN, Fin 1, Fin 3]" and e = 0 and entries = "[Some 3, None, Some 1]"
      and entries' = "[None, Some 1, Some 3]"]
  have m: "mset [NaN, Fin 1, Fin 3] = mset [Fin 3, NaN, Fin 1]"
    by simp
  have u: "map (unit_entry 0) [Some 3, None, Some 1] = [Fin 3, NaN, Fin 1]"
      "map (unit_entry 0) [None, Some 1, Some 3] = [NaN, Fin 1, Fin 3]"
    by (simp_all add: unit_entry_def)
  have h: "(0::nat) \<le> 1074 \<and> unit_total [Some 3, None, Some 1] < 2 ^ 53 \<and>
      mset [None, Some 1, Some 3] = mset [Some 3, None, Some (1::nat)]"
    by (simp add: unit_total_def)
  have t: "real (unit_total [Some 3, None, Some 1]) / 2 ^ 0 = 4"
    by (simp add: unit_total_def)
  have a: "nanmedian [NaN, Fin 1, Fin 3] = nanmedian [Fin 3, NaN, Fin 1]"
    using T [THEN conjunct1] m by blast
  have b: "sum_valid [Fin 3, NaN, Fin 1] = Fin 4 \<and>
      sum_valid [NaN, Fin 1, Fin 3] = sum_valid [Fin 3, NaN, Fin 1] \<and>
      nanmean [NaN, Fin 1, Fin 3] = nanmean [Fin 3, NaN, Fin 1]"
    using T [THEN conjunct2, THEN conjunct2, THEN conjunct1] h unfolding u t by blast
  from m a b show ?thesis
    by simp
qed

section \<open>Properties of the concatenation of the two subsets\<close>







end
